theory Spec2Isabelle
  imports Main "HOL-Library.Char_ord" "HOL-Library.List_Lexorder"
begin

section \<open>Strings and numbers of the host language\<close>

text \<open>
  A JavaScript string is modelled as a HOL \<open>string\<close>; the order on strings is the
  lexicographic order on character codes, which is what \<^verbatim>\<open>Array.prototype.sort\<close>
  without a comparator uses. A JavaScript number that may be \<^verbatim>\<open>NaN\<close> is an
  \<open>int option\<close> with \<open>None\<close> for \<^verbatim>\<open>NaN\<close>: every number computed by the code
  below is an integer or \<^verbatim>\<open>NaN\<close>. The bytes of a file and the text that
  \<^verbatim>\<open>toString()\<close> decodes from them are the same \<open>string\<close>: a file is taken to hold
  well-formed UTF-8, which is decoded without loss; what the decoding puts in the place
  of other bytes is not modelled.
\<close>

definition is_digit :: "char \<Rightarrow> bool" where
  "is_digit c = (c \<in> set ''0123456789'')"

definition digit_val :: "char \<Rightarrow> nat" where
  "digit_val c = of_char c - 48"

definition digit_char :: "nat \<Rightarrow> char" where
  "digit_char n = ''0123456789'' ! n"

text \<open>The value of a string of decimal digits, most significant digit first.\<close>

definition dec :: "string \<Rightarrow> nat" where
  "dec s = foldl (\<lambda>a c. 10 * a + digit_val c) 0 s"

text \<open>\<^verbatim>\<open>'' + n\<close> for a non-negative integer \<open>n\<close>: its decimal digits.\<close>

function show_nat :: "nat \<Rightarrow> string" where
  "show_nat n = (if n < 10 then [digit_char n] else show_nat (n div 10) @ [digit_char (n mod 10)])"
  by pat_completeness auto
termination
  by (relation "measure id") auto

declare show_nat.simps [simp del]

text \<open>\<^verbatim>\<open>'' + n\<close> and \<^verbatim>\<open>`${n}`\<close> for an integer \<open>n\<close>.\<close>

definition show_int :: "int \<Rightarrow> string" where
  "show_int i = (if i < 0 then CHR ''-'' # show_nat (nat (- i)) else show_nat (nat i))"

text \<open>
  \<^verbatim>\<open>s.substring(a, b)\<close> for non-negative integers: both indices are clamped to the
  length and swapped when \<open>a > b\<close>.
\<close>

definition substring :: "string \<Rightarrow> nat \<Rightarrow> nat \<Rightarrow> string" where
  "substring s a b =
     (let a' = min a (length s); b' = min b (length s);
          from = min a' b'; to = max a' b'
      in take (to - from) (drop from s))"

text \<open>
  \<^verbatim>\<open>parseInt(s)\<close> without a radix: leading white space is skipped, a sign is read,
  a \<^verbatim>\<open>0x\<close> prefix selects radix 16, and the longest prefix of digits of the radix
  is the value; with no digit the result is \<^verbatim>\<open>NaN\<close>.
\<close>

definition is_space :: "char \<Rightarrow> bool" where
  "is_space c = (of_char c \<in> {9, 10, 11, 12, 13, 32, 160 :: nat})"

definition is_hex_digit :: "char \<Rightarrow> bool" where
  "is_hex_digit c = (c \<in> set ''0123456789abcdefABCDEF'')"

definition hex_val :: "char \<Rightarrow> nat" where
  "hex_val c =
     (if is_digit c then of_char c - 48
      else if c \<in> set ''abcdef'' then of_char c - 87
      else of_char c - 55)"

definition parse_magnitude :: "string \<Rightarrow> nat option" where
  "parse_magnitude s =
     (if take 2 s = ''0x'' \<or> take 2 s = ''0X'' then
        (let ds = takeWhile is_hex_digit (drop 2 s)
         in if ds = [] then None else Some (foldl (\<lambda>a c. 16 * a + hex_val c) 0 ds))
      else
        (let ds = takeWhile is_digit s
         in if ds = [] then None else Some (dec ds)))"

definition parseInt :: "string \<Rightarrow> int option" where
  "parseInt s =
     (case dropWhile is_space s of
        [] \<Rightarrow> None
      | c # cs \<Rightarrow>
          if c = CHR ''-'' then map_option (\<lambda>n. - int n) (parse_magnitude cs)
          else if c = CHR ''+'' then map_option int (parse_magnitude cs)
          else map_option int (parse_magnitude (c # cs)))"

section \<open>The clock and the snapshot name\<close>

text \<open>
  A \<^verbatim>\<open>Date\<close> as the code reads it: the values of its local-time getters. The
  reading of \<^verbatim>\<open>new Date()\<close> is an input of \<open>backup\<close>.
\<close>

record js_date =
  getFullYear :: int
  getMonth :: nat
  getDate :: nat
  getHours :: nat
  getMinutes :: nat
  getSeconds :: nat
  getMilliseconds :: nat

text \<open>The ranges of the getters of a valid \<^verbatim>\<open>Date\<close>; months count from zero.\<close>

definition valid_date :: "js_date \<Rightarrow> bool" where
  "valid_date d =
     (getMonth d < 12 \<and> 1 \<le> getDate d \<and> getDate d \<le> 31 \<and> getHours d < 24 \<and>
      getMinutes d < 60 \<and> getSeconds d < 60 \<and> getMilliseconds d < 1000)"

text \<open>
  \<^verbatim>\<open>pad(n, l, char = '0')\<close>: the loop pushes \<open>char\<close> once for every index from the
  length of \<^verbatim>\<open>'' + n\<close> up to \<open>l\<close>, then the array is reversed and joined.
\<close>

function pad_loop :: "nat \<Rightarrow> nat \<Rightarrow> string list \<Rightarrow> string \<Rightarrow> string list" where
  "pad_loop i l r ch = (if i < l then pad_loop (Suc i) l (r @ [ch]) ch else r)"
  by pat_completeness auto
termination
  by (relation "measure (\<lambda>(i, l, r, ch). l - i)") auto

declare pad_loop.simps [simp del]

definition pad :: "int \<Rightarrow> nat \<Rightarrow> string \<Rightarrow> string" where
  "pad n l ch = (let str = show_int n in concat (rev (pad_loop (length str) l [str] ch)))"

text \<open>
  \<^verbatim>\<open>(ms / 1000).toFixed(3)\<close> for an integer \<open>ms\<close> from 0: the decimal expansion of
  \<open>ms / 1000\<close> with three places, which is exact for the quotient of an integer by 1000.
  \<^verbatim>\<open>s.slice(a, b)\<close> is used with non-negative indices only.
\<close>

definition toFixed3_of_thousandths :: "nat \<Rightarrow> string" where
  "toFixed3_of_thousandths ms =
     show_nat (ms div 1000) @ ''.'' @
     replicate (3 - length (show_nat (ms mod 1000))) CHR ''0'' @ show_nat (ms mod 1000)"

definition str_slice :: "string \<Rightarrow> nat \<Rightarrow> nat \<Rightarrow> string" where
  "str_slice s a b = take (b - a) (drop a s)"

definition toLocalISOString :: "js_date \<Rightarrow> string" where
  "toLocalISOString d =
     show_int (getFullYear d) @
     ''-'' @ pad (int (getMonth d) + 1) 2 ''0'' @
     ''-'' @ pad (int (getDate d)) 2 ''0'' @
     ''T'' @ pad (int (getHours d)) 2 ''0'' @
     '':'' @ pad (int (getMinutes d)) 2 ''0'' @
     '':'' @ pad (int (getSeconds d)) 2 ''0'' @
     ''.'' @ str_slice (toFixed3_of_thousandths (getMilliseconds d)) 2 5 @
     ''Z''"

text \<open>
  \<^verbatim>\<open>s.replace(/-|:|\.\d+Z$/g, '')\<close>: scanning from the left, a hyphen or a colon is
  dropped, and so is a full stop when one or more digits and a final \<open>Z\<close> are all that
  follows it.
\<close>

definition fraction_tail :: "string \<Rightarrow> bool" where
  "fraction_tail s = (takeWhile is_digit s \<noteq> [] \<and> dropWhile is_digit s = ''Z'')"

fun strip_separators :: "string \<Rightarrow> string" where
  "strip_separators [] = []"
| "strip_separators (c # cs) =
     (if c = CHR ''-'' \<or> c = CHR '':'' then strip_separators cs
      else if c = CHR ''.'' \<and> fraction_tail cs then []
      else c # strip_separators cs)"

text \<open>The file name \<open>backup\<close> writes to, inside the resource's folder.\<close>

definition backup_file_name :: "js_date \<Rightarrow> string" where
  "backup_file_name now = strip_separators (toLocalISOString now) @ ''.json''"

section \<open>Accepted names and their creation time\<close>

text \<open>
  \<^verbatim>\<open>/^\d{8}T\d{6}(\.json)?$/.test(name)\<close>: exactly eight digits, the letter T,
  exactly six digits, then either the end of the name or \<^verbatim>\<open>.json\<close> and the end.
\<close>

fun match_digits :: "nat \<Rightarrow> string \<Rightarrow> string option" where
  "match_digits 0 s = Some s"
| "match_digits (Suc n) [] = None"
| "match_digits (Suc n) (c # cs) = (if is_digit c then match_digits n cs else None)"

definition matches_backup_name :: "string \<Rightarrow> bool" where
  "matches_backup_name s =
     (case match_digits 8 s of
        None \<Rightarrow> False
      | Some r1 \<Rightarrow>
          (case r1 of
             [] \<Rightarrow> False
           | c # r2 \<Rightarrow>
               c = CHR ''T'' \<and>
               (case match_digits 6 r2 of
                  None \<Rightarrow> False
                | Some r3 \<Rightarrow> r3 = ''.json'' \<or> r3 = [])))"

text \<open>
  The part of the host the code consumes and the repository does not define: the
  offset of local time from UTC in milliseconds at a local time value (the
  specification's \<^verbatim>\<open>LocalTZA(t, false)\<close>), and the text of a number, given by its
  JSON lexeme (used only where JSON content that is not a string is turned into text).
\<close>

record host =
  localTZA :: "int \<Rightarrow> int"
  numberToString :: "string \<Rightarrow> string"

text \<open>
  The \<^verbatim>\<open>Date\<close> constructor on year, month, day, hours, minutes and seconds, and
  \<^verbatim>\<open>getTime\<close>, after the language specification: \<^verbatim>\<open>MakeDay\<close>, \<^verbatim>\<open>MakeTime\<close>,
  \<^verbatim>\<open>MakeDate\<close>, \<^verbatim>\<open>UTC\<close> and \<^verbatim>\<open>TimeClip\<close>. Day numbers count from 1 January 1970.
\<close>

definition DayFromYear :: "int \<Rightarrow> int" where
  "DayFromYear y = 365 * (y - 1970) + (y - 1969) div 4 - (y - 1901) div 100 + (y - 1601) div 400"

definition InLeapYear :: "int \<Rightarrow> bool" where
  "InLeapYear y = ((y mod 4 = 0 \<and> y mod 100 \<noteq> 0) \<or> y mod 400 = 0)"

definition month_start :: "bool \<Rightarrow> nat \<Rightarrow> int" where
  "month_start leap mn =
     (let l = (if leap then 1 else 0)
      in [0, 31, 59 + l, 90 + l, 120 + l, 151 + l, 181 + l, 212 + l, 243 + l, 273 + l,
          304 + l, 334 + l] ! mn)"

definition MakeDay :: "int \<Rightarrow> int \<Rightarrow> int \<Rightarrow> int" where
  "MakeDay year month dt =
     (let ym = year + month div 12; mn = nat (month mod 12)
      in DayFromYear ym + month_start (InLeapYear ym) mn + dt - 1)"

definition MakeTime :: "int \<Rightarrow> int \<Rightarrow> int \<Rightarrow> int \<Rightarrow> int" where
  "MakeTime hour minute sec ms = hour * 3600000 + minute * 60000 + sec * 1000 + ms"

definition MakeDate :: "int \<Rightarrow> int \<Rightarrow> int" where
  "MakeDate day time = day * 86400000 + time"

definition UTC :: "host \<Rightarrow> int \<Rightarrow> int" where
  "UTC h t = t - localTZA h t"

definition TimeClip :: "int \<Rightarrow> int option" where
  "TimeClip t = (if \<bar>t\<bar> > 8640000000000000 then None else Some t)"

definition new_Date_getTime ::
  "host \<Rightarrow> int option \<Rightarrow> int option \<Rightarrow> int option \<Rightarrow> int option \<Rightarrow> int option \<Rightarrow> int option
     \<Rightarrow> int option" where
  "new_Date_getTime h year month dt hours minutes seconds =
     (case (year, month, dt, hours, minutes, seconds) of
        (Some y, Some m, Some d, Some hh, Some mi, Some s) \<Rightarrow>
          (let yr = (if 0 \<le> y \<and> y \<le> 99 then 1900 + y else y)
           in TimeClip (UTC h (MakeDate (MakeDay yr m d) (MakeTime hh mi s 0))))
      | _ \<Rightarrow> None)"

text \<open>\<^verbatim>\<open>getCreationTime(name)\<close>; a \<^verbatim>\<open>NaN\<close> minus one is \<^verbatim>\<open>NaN\<close>.\<close>

definition getCreationTime :: "host \<Rightarrow> string \<Rightarrow> int option" where
  "getCreationTime h name =
     new_Date_getTime h
       (parseInt (substring name 0 4))
       (map_option (\<lambda>m. m - 1) (parseInt (substring name 4 6)))
       (parseInt (substring name 6 8))
       (parseInt (substring name 9 11))
       (parseInt (substring name 11 13))
       (parseInt (substring name 13 15))"

section \<open>The file system\<close>

text \<open>
  A path is the list of its components below the root, already normalised. The store
  maps a path to a file with its bytes or to a directory with the names it lists.
  Every call can also fail for a reason of the environment (permissions, a device
  error): \<open>fault\<close> says for each call and path whether it does, and with what error.
\<close>

type_synonym path = "string list"

datatype errno = ENOENT | ENOTDIR | EISDIR | EEXIST | EACCES | EIO

datatype node = File string | Dir "string list"

datatype fs_call = Exists | Mkdir | Readdir | ReadFile | WriteFile

record filesystem =
  nodes :: "path \<Rightarrow> node option"
  fault :: "fs_call \<Rightarrow> path \<Rightarrow> errno option"

text \<open>
  \<^verbatim>\<open>path.join\<close> on an absolute, normalised first argument (POSIX): every further
  argument is split at the slashes; an empty component and \<^verbatim>\<open>.\<close> are dropped and
  \<^verbatim>\<open>..\<close> removes the last component. \<^verbatim>\<open>path.dirname\<close> removes the last component.
  A list of components has no place for the separator that \<^verbatim>\<open>path.join\<close> keeps at the
  end of its result when the last argument ends in one: the code joins a folder with
  the text of a resource and with a name that \<^verbatim>\<open>path.basename\<close>, a listing or the
  clock gave, and none of these ends in a separator.
\<close>

fun split_on :: "char \<Rightarrow> string \<Rightarrow> string list" where
  "split_on sep [] = [[]]"
| "split_on sep (c # cs) =
     (if c = sep then [] # split_on sep cs
      else (case split_on sep cs of [] \<Rightarrow> [[c]] | w # ws \<Rightarrow> (c # w) # ws))"

definition path_step :: "path \<Rightarrow> string \<Rightarrow> path" where
  "path_step p c = (if c = [] \<or> c = ''.'' then p else if c = ''..'' then butlast p else p @ [c])"

definition path_join :: "path \<Rightarrow> string list \<Rightarrow> path" where
  "path_join p segments = foldl path_step p (concat (map (split_on CHR ''/'') segments))"

definition path_dirname :: "path \<Rightarrow> path" where
  "path_dirname p = butlast p"

text \<open>\<^verbatim>\<open>fs.exists\<close> never fails: every error is the answer \<^verbatim>\<open>false\<close>.\<close>

definition fs_exists :: "filesystem \<Rightarrow> path \<Rightarrow> bool" where
  "fs_exists fs p = (fault fs Exists p = None \<and> nodes fs p \<noteq> None)"

definition fs_readdir :: "filesystem \<Rightarrow> path \<Rightarrow> errno + string list" where
  "fs_readdir fs p =
     (case fault fs Readdir p of
        Some e \<Rightarrow> Inl e
      | None \<Rightarrow>
          (case nodes fs p of
             None \<Rightarrow> Inl ENOENT
           | Some (File b) \<Rightarrow> Inl ENOTDIR
           | Some (Dir names) \<Rightarrow> Inr names))"

definition fs_readFile :: "filesystem \<Rightarrow> path \<Rightarrow> errno + string" where
  "fs_readFile fs p =
     (case fault fs ReadFile p of
        Some e \<Rightarrow> Inl e
      | None \<Rightarrow>
          (case nodes fs p of
             None \<Rightarrow> Inl ENOENT
           | Some (Dir names) \<Rightarrow> Inl EISDIR
           | Some (File b) \<Rightarrow> Inr b))"

definition add_name :: "string \<Rightarrow> string list \<Rightarrow> string list" where
  "add_name n names = (if n \<in> set names then names else names @ [n])"

text \<open>
  \<^verbatim>\<open>fs.writeFile(p, data)\<close> creates or replaces the file and lists it in its
  directory; the directory must exist.
\<close>

definition fs_writeFile :: "filesystem \<Rightarrow> path \<Rightarrow> string \<Rightarrow> errno + filesystem" where
  "fs_writeFile fs p b =
     (case fault fs WriteFile p of
        Some e \<Rightarrow> Inl e
      | None \<Rightarrow>
          if p = [] then Inl EISDIR
          else
            (case nodes fs (butlast p) of
               None \<Rightarrow> Inl ENOENT
             | Some (File b') \<Rightarrow> Inl ENOTDIR
             | Some (Dir names) \<Rightarrow>
                 (case nodes fs p of
                    Some (Dir names') \<Rightarrow> Inl EISDIR
                  | _ \<Rightarrow>
                      Inr (fs\<lparr>nodes := (nodes fs)
                             (butlast p \<mapsto> Dir (add_name (last p) names), p \<mapsto> File b)\<rparr>))))"

text \<open>
  \<^verbatim>\<open>fs.mkdir(p, { recursive: true })\<close>: walking down from the root, every missing
  directory on the way to \<open>p\<close> is created and listed in its parent; a directory that
  exists is left as it is; a file on the way is an error.
\<close>

fun mkdirs :: "(path \<Rightarrow> node option) \<Rightarrow> path \<Rightarrow> string list \<Rightarrow> errno + (path \<Rightarrow> node option)" where
  "mkdirs m parent [] = Inr m"
| "mkdirs m parent (c # cs) =
     (case m (parent @ [c]) of
        Some (File b) \<Rightarrow> Inl (if cs = [] then EEXIST else ENOTDIR)
      | Some (Dir names) \<Rightarrow> mkdirs m (parent @ [c]) cs
      | None \<Rightarrow>
          (case m parent of
             None \<Rightarrow> Inl ENOENT
           | Some (File b) \<Rightarrow> Inl ENOTDIR
           | Some (Dir names) \<Rightarrow>
               mkdirs (m(parent \<mapsto> Dir (add_name c names), parent @ [c] \<mapsto> Dir []))
                 (parent @ [c]) cs))"

definition fs_mkdir_recursive :: "filesystem \<Rightarrow> path \<Rightarrow> errno + filesystem" where
  "fs_mkdir_recursive fs p =
     (case fault fs Mkdir p of
        Some e \<Rightarrow> Inl e
      | None \<Rightarrow>
          (case mkdirs (nodes fs) [] p of
             Inl e \<Rightarrow> Inl e
           | Inr m \<Rightarrow> Inr (fs\<lparr>nodes := m\<rparr>)))"

section \<open>The backup service\<close>

datatype UserDataResource = Settings | Keybindings

text \<open>The value of the string enum, as template strings and \<^verbatim>\<open>path.join\<close> use it.\<close>

fun resource_text :: "UserDataResource \<Rightarrow> string" where
  "resource_text Settings = ''settings''"
| "resource_text Keybindings = ''keybindings''"

record IUserDataBackupEntry =
  resource :: UserDataResource
  name :: string
  created :: "int option"

datatype error = IOError errno | SyntaxError | TypeError

text \<open>
  What a call can change: the file system and the events fired so far on the
  service's emitter, oldest first. A promise that rejects is a result \<open>Inl\<close>.
\<close>

record world =
  files :: filesystem
  fired :: "UserDataResource list"

record UserDataBackupService =
  userDataPath :: path
  userDataBackupFolder :: path

text \<open>
  The constructor of \<^verbatim>\<open>extension.ts\<close> takes the user data folder from the platform
  (\<^verbatim>\<open>getUserDataPath\<close>, which throws on a platform it does not know); the first
  variant of the other file takes it two levels above the global storage folder.
\<close>

datatype platform = Win32 | Darwin | Linux | OtherPlatform

record process_env =
  process_platform :: platform
  env_USERPROFILE :: path
  os_homedir :: path

definition getUserDataPath :: "process_env \<Rightarrow> error + path" where
  "getUserDataPath pe =
     (case process_platform pe of
        Win32 \<Rightarrow>
          Inr (path_join (env_USERPROFILE pe) [''AppData'', ''Roaming'', ''Code - Insiders'', ''User''])
      | Darwin \<Rightarrow>
          Inr (path_join (os_homedir pe) [''Library'', ''Application Support'', ''Code - Insiders'', ''User''])
      | Linux \<Rightarrow> Inr (path_join (os_homedir pe) [''.config'', ''Code - Insiders'', ''User''])
      | OtherPlatform \<Rightarrow> Inl TypeError)"

definition new_UserDataBackupService_ext :: "process_env \<Rightarrow> path \<Rightarrow> error + UserDataBackupService" where
  "new_UserDataBackupService_ext pe globalStoragePath =
     (case getUserDataPath pe of
        Inl e \<Rightarrow> Inl e
      | Inr p \<Rightarrow>
          Inr \<lparr>userDataPath = p,
               userDataBackupFolder = path_join globalStoragePath [''userdata-backup'']\<rparr>)"

definition new_UserDataBackupService :: "path \<Rightarrow> UserDataBackupService" where
  "new_UserDataBackupService globalStoragePath =
     \<lparr>userDataPath = path_dirname (path_dirname globalStoragePath),
      userDataBackupFolder = path_join globalStoragePath [''userdata-backup'']\<rparr>"

text \<open>\<^verbatim>\<open>resolveContent\<close>: the read is inside \<^verbatim>\<open>try\<close>, the handler returns \<^verbatim>\<open>''\<close>.\<close>

definition resolveContent ::
  "UserDataBackupService \<Rightarrow> UserDataResource \<Rightarrow> string \<Rightarrow> world \<Rightarrow> (error + string) \<times> world" where
  "resolveContent svc r nm w =
     (let userDataBackupFilePath = path_join (userDataBackupFolder svc) [resource_text r, nm]
      in (case fs_readFile (files w) userDataBackupFilePath of
            Inl e \<Rightarrow> (Inr [], w)
          | Inr content \<Rightarrow> (Inr content, w)))"

text \<open>
  \<^verbatim>\<open>getAllEntries\<close>: the listing is filtered by the pattern, sorted, reversed and
  mapped to entries, all inside \<^verbatim>\<open>try\<close>; the handler returns the empty array.
\<close>

definition getAllEntries ::
  "host \<Rightarrow> UserDataBackupService \<Rightarrow> UserDataResource \<Rightarrow> world
     \<Rightarrow> (error + IUserDataBackupEntry list) \<times> world" where
  "getAllEntries h svc r w =
     (let userDataBackupFolderPath = path_join (userDataBackupFolder svc) [resource_text r]
      in (case fs_readdir (files w) userDataBackupFolderPath of
            Inl e \<Rightarrow> (Inr [], w)
          | Inr children \<Rightarrow>
              (let all = rev (sort (filter matches_backup_name children))
               in (Inr (map (\<lambda>n. \<lparr>resource = r, name = n, created = getCreationTime h n\<rparr>) all),
                   w))))"

text \<open>
  \<^verbatim>\<open>backup\<close>: nothing is caught, so the first failing call ends it with what was done
  before; \<open>now\<close> is what \<^verbatim>\<open>new Date()\<close> reads between the folder check and the copy.
\<close>

definition backup ::
  "UserDataBackupService \<Rightarrow> js_date \<Rightarrow> UserDataResource \<Rightarrow> world \<Rightarrow> (error + unit) \<times> world" where
  "backup svc now r w =
     (let userDataFilePath = path_join (userDataPath svc) [resource_text r @ ''.json''];
          userDataBackupFolderPath = path_join (userDataBackupFolder svc) [resource_text r];
          made =
            (if \<not> fs_exists (files w) userDataBackupFolderPath
             then fs_mkdir_recursive (files w) userDataBackupFolderPath
             else Inr (files w))
      in (case made of
            Inl e \<Rightarrow> (Inl (IOError e), w)
          | Inr fs1 \<Rightarrow>
              (let userDataBackupFilePath =
                     path_join userDataBackupFolderPath [backup_file_name now]
               in (case fs_readFile fs1 userDataFilePath of
                     Inl e \<Rightarrow> (Inl (IOError e), w\<lparr>files := fs1\<rparr>)
                   | Inr content \<Rightarrow>
                       (case fs_writeFile fs1 userDataBackupFilePath content of
                          Inl e \<Rightarrow> (Inl (IOError e), w\<lparr>files := fs1\<rparr>)
                        | Inr fs2 \<Rightarrow> (Inr (), \<lparr>files = fs2, fired = fired w @ [r]\<rparr>))))))"

section \<open>The resolver classes of the second variant\<close>

text \<open>
  \<^verbatim>\<open>UserDataBackupResolver\<close> has the two folders of the service and the scheme of the
  uris it makes; its entries carry such a uri. A uri is its scheme and its path.
\<close>

record Uri =
  uri_scheme :: string
  uri_path :: path

record UserDataBackupResolver = UserDataBackupService +
  scheme :: string

record IUserDataBackupEntry_uri = IUserDataBackupEntry +
  uri :: Uri

definition new_UserDataSyncBackupResolver :: "path \<Rightarrow> UserDataBackupResolver" where
  "new_UserDataSyncBackupResolver globalStoragePath =
     \<lparr>userDataPath = path_dirname (path_dirname globalStoragePath),
      userDataBackupFolder = path_join (path_dirname (path_dirname globalStoragePath)) [''sync''],
      scheme = ''userdata-sync-timeline''\<rparr>"

definition new_UserDataChangesBackupService :: "path \<Rightarrow> UserDataBackupResolver" where
  "new_UserDataChangesBackupService globalStoragePath =
     \<lparr>userDataPath = path_dirname (path_dirname globalStoragePath),
      userDataBackupFolder = path_join globalStoragePath [''userdata-backup''],
      scheme = ''userdata-timeline''\<rparr>"

definition Resolver_resolveContent ::
  "UserDataBackupResolver \<Rightarrow> UserDataResource \<Rightarrow> string \<Rightarrow> world \<Rightarrow> (error + string) \<times> world" where
  "Resolver_resolveContent rs r nm w =
     (let userDataBackupFilePath = path_join (userDataBackupFolder rs) [resource_text r, nm]
      in (case fs_readFile (files w) userDataBackupFilePath of
            Inl e \<Rightarrow> (Inr [], w)
          | Inr content \<Rightarrow> (Inr content, w)))"

definition Resolver_getAllEntries ::
  "host \<Rightarrow> UserDataBackupResolver \<Rightarrow> UserDataResource \<Rightarrow> world
     \<Rightarrow> (error + IUserDataBackupEntry_uri list) \<times> world" where
  "Resolver_getAllEntries h rs r w =
     (let userDataBackupFolderPath = path_join (userDataBackupFolder rs) [resource_text r]
      in (case fs_readdir (files w) userDataBackupFolderPath of
            Inl e \<Rightarrow> (Inr [], w)
          | Inr children \<Rightarrow>
              (let all = rev (sort (filter matches_backup_name children))
               in (Inr (map (\<lambda>n. \<lparr>resource = r, name = n, created = getCreationTime h n,
                                    uri = \<lparr>uri_scheme = scheme rs,
                                            uri_path = path_join [] [resource_text r, n]\<rparr>\<rparr>) all),
                   w))))"

definition Changes_backup ::
  "UserDataBackupResolver \<Rightarrow> js_date \<Rightarrow> UserDataResource \<Rightarrow> world \<Rightarrow> (error + unit) \<times> world" where
  "Changes_backup rs now r w =
     (let userDataFilePath = path_join (userDataPath rs) [resource_text r @ ''.json''];
          userDataBackupFolderPath = path_join (userDataBackupFolder rs) [resource_text r];
          made =
            (if \<not> fs_exists (files w) userDataBackupFolderPath
             then fs_mkdir_recursive (files w) userDataBackupFolderPath
             else Inr (files w))
      in (case made of
            Inl e \<Rightarrow> (Inl (IOError e), w)
          | Inr fs1 \<Rightarrow>
              (let userDataBackupFilePath =
                     path_join userDataBackupFolderPath [backup_file_name now]
               in (case fs_readFile fs1 userDataFilePath of
                     Inl e \<Rightarrow> (Inl (IOError e), w\<lparr>files := fs1\<rparr>)
                   | Inr content \<Rightarrow>
                       (case fs_writeFile fs1 userDataBackupFilePath content of
                          Inl e \<Rightarrow> (Inl (IOError e), w\<lparr>files := fs1\<rparr>)
                        | Inr fs2 \<Rightarrow> (Inr (), \<lparr>files = fs2, fired = fired w @ [r]\<rparr>))))))"

section \<open>The timeline page\<close>

text \<open>
  \<^verbatim>\<open>xs.slice(start, end)\<close> on numbers that may be \<^verbatim>\<open>NaN\<close>: \<^verbatim>\<open>NaN\<close> counts as 0, a
  negative index counts from the end, and both are clamped to the length.
\<close>

definition slice_index :: "nat \<Rightarrow> int option \<Rightarrow> nat" where
  "slice_index len v =
     (case v of
        None \<Rightarrow> 0
      | Some i \<Rightarrow> if i < 0 then nat (max (int len + i) 0) else nat (min i (int len)))"

definition js_slice :: "'a list \<Rightarrow> int option \<Rightarrow> int option \<Rightarrow> 'a list" where
  "js_slice xs start fin =
     (let k = slice_index (length xs) start; final = slice_index (length xs) fin
      in take (final - k) (drop k xs))"

record TimelineOptions =
  cursor :: "string option"

text \<open>
  \<^verbatim>\<open>options.cursor\<close> as a condition is true when the cursor is defined and not the
  empty string; \<open>truthy_cursor\<close> is the cursor in that case.
\<close>

definition truthy_cursor :: "TimelineOptions \<Rightarrow> string option" where
  "truthy_cursor options =
     (case cursor options of None \<Rightarrow> None | Some c \<Rightarrow> if c = [] then None else Some c)"

definition filterEntries :: "'a list \<Rightarrow> TimelineOptions \<Rightarrow> 'a list" where
  "filterEntries entries options =
     (case truthy_cursor options of
        Some c \<Rightarrow>
          (let start = parseInt c
           in js_slice entries start (map_option (\<lambda>s. s + 10) start))
      | None \<Rightarrow> js_slice entries (Some 0) (Some 10))"

record UserDataTimelineItem =
  label :: string
  timestamp :: "int option"
  source :: Uri
  backup_uri :: Uri
  command_arguments :: "Uri list"
  contextValue :: string

definition toTimelineItem :: "IUserDataBackupEntry_uri \<Rightarrow> Uri \<Rightarrow> UserDataTimelineItem" where
  "toTimelineItem entry src =
     \<lparr>label = substring (name entry) 0 (length (name entry) - 5),
      timestamp = created entry,
      source = src,
      backup_uri = uri entry,
      command_arguments = [uri entry, src],
      contextValue = ''userdata/'' @ resource_text (resource entry)\<rparr>"

record Timeline =
  items :: "UserDataTimelineItem list"
  paging_cursor :: "string option"

text \<open>
  The part of \<^verbatim>\<open>provideTimeline\<close> after the entries are read: the page, and the next
  cursor. A comparison with \<^verbatim>\<open>NaN\<close> is false.
\<close>

definition timeline_of :: "IUserDataBackupEntry_uri list \<Rightarrow> Uri \<Rightarrow> TimelineOptions \<Rightarrow> Timeline" where
  "timeline_of allEntries u options =
     (let filteredEntries = filterEntries allEntries options;
          its = map (\<lambda>entry. toTimelineItem entry u) filteredEntries;
          next_cursor =
            (case truthy_cursor options of
               Some c \<Rightarrow> map_option (\<lambda>s. s + 10) (parseInt c)
             | None \<Rightarrow> Some 10)
      in \<lparr>items = its,
          paging_cursor =
            (case next_cursor of
               None \<Rightarrow> None
             | Some n \<Rightarrow> if int (length allEntries) > n then Some (show_int n) else None)\<rparr>)"

text \<open>
  \<^verbatim>\<open>provideTimeline\<close>; the resource is the one the base name of the uri names
  (its last five characters removed).
\<close>

definition provideTimeline ::
  "host \<Rightarrow> UserDataBackupResolver \<Rightarrow> UserDataResource \<Rightarrow> Uri \<Rightarrow> TimelineOptions \<Rightarrow> world
     \<Rightarrow> (error + Timeline) \<times> world" where
  "provideTimeline h rs r u options w =
     (case Resolver_getAllEntries h rs r w of
        (Inl e, w') \<Rightarrow> (Inl e, w')
      | (Inr allEntries, w') \<Rightarrow> (Inr (timeline_of allEntries u options), w'))"

section \<open>JSON and the sync resolver\<close>

text \<open>
  \<^verbatim>\<open>JSON.parse\<close>, after the JSON grammar of the language specification. A string
  value is kept as the UTF-8 bytes of its text (an escaped surrogate pair is one code
  point), a number as its lexeme.
\<close>

datatype json =
  JNull | JBool bool | JNumber string | JString string | JArray "json list"
  | JObject "(string \<times> json) list"

datatype token =
  LBrace | RBrace | LBracket | RBracket | Colon | Comma
  | TString string | TNumber string | TTrue | TFalse | TNull

definition utf8_encode :: "nat \<Rightarrow> string" where
  "utf8_encode cp =
     (if cp < 128 then [char_of cp]
      else if cp < 2048 then [char_of (192 + cp div 64), char_of (128 + cp mod 64)]
      else if cp < 65536 then
        [char_of (224 + cp div 4096), char_of (128 + cp div 64 mod 64), char_of (128 + cp mod 64)]
      else
        [char_of (240 + cp div 262144), char_of (128 + cp div 4096 mod 64),
         char_of (128 + cp div 64 mod 64), char_of (128 + cp mod 64)])"

definition hex4 :: "string \<Rightarrow> nat option" where
  "hex4 s =
     (if length (take 4 s) = 4 \<and> list_all is_hex_digit (take 4 s)
      then Some (foldl (\<lambda>a c. 16 * a + hex_val c) 0 (take 4 s)) else None)"

text \<open>
  What follows \<^verbatim>\<open>\u\<close> in a string: the bytes it stands for and the number of
  characters read, four, or ten when a high surrogate is followed by an escaped low one.
\<close>

definition unicode_escape :: "string \<Rightarrow> (string \<times> nat) option" where
  "unicode_escape s =
     (case hex4 s of
        None \<Rightarrow> None
      | Some hi \<Rightarrow>
          (case (if 55296 \<le> hi \<and> hi < 56320 \<and> take 2 (drop 4 s) = [CHR 0x5C, CHR ''u'']
                 then hex4 (drop 6 s) else None) of
             Some lo \<Rightarrow>
               if 56320 \<le> lo \<and> lo < 57344
               then Some (utf8_encode (65536 + (hi - 55296) * 1024 + (lo - 56320)), 10)
               else Some (utf8_encode hi, 4)
           | None \<Rightarrow> Some (utf8_encode hi, 4)))"

definition simple_escape :: "char \<Rightarrow> char option" where
  "simple_escape e =
     (if e = CHR 0x22 then Some (CHR 0x22)
      else if e = CHR 0x5C then Some (CHR 0x5C)
      else if e = CHR ''/'' then Some (CHR ''/'')
      else if e = CHR ''b'' then Some (CHR 0x08)
      else if e = CHR ''f'' then Some (CHR 0x0C)
      else if e = CHR ''n'' then Some (CHR 0x0A)
      else if e = CHR ''r'' then Some (CHR 0x0D)
      else if e = CHR ''t'' then Some (CHR 0x09)
      else None)"

text \<open>
  The rest of a string after its opening quote: its text and the number of characters
  read, the closing quote included.
\<close>

function lex_string :: "string \<Rightarrow> (string \<times> nat) option" where
  "lex_string [] = None"
| "lex_string (c # cs) =
     (if c = CHR 0x22 then Some ([], 1)
      else if c = CHR 0x5C then
        (case cs of
           [] \<Rightarrow> None
         | e # r \<Rightarrow>
             if e = CHR ''u'' then
               (case unicode_escape r of
                  None \<Rightarrow> None
                | Some (bs, k) \<Rightarrow>
                    (case lex_string (drop k r) of
                       None \<Rightarrow> None
                     | Some (s, n) \<Rightarrow> Some (bs @ s, 2 + k + n)))
             else
               (case simple_escape e of
                  None \<Rightarrow> None
                | Some ch \<Rightarrow>
                    (case lex_string r of
                       None \<Rightarrow> None
                     | Some (s, n) \<Rightarrow> Some (ch # s, 2 + n))))
      else if (of_char c :: nat) < 32 then None
      else
        (case lex_string cs of
           None \<Rightarrow> None
         | Some (s, n) \<Rightarrow> Some (c # s, 1 + n)))"
  by pat_completeness auto
termination
  by (relation "measure length") auto

text \<open>A number at the start of the text: its lexeme, or nothing when none starts there.\<close>

definition lex_digits :: "string \<Rightarrow> string" where
  "lex_digits s = takeWhile is_digit s"

definition lex_number :: "string \<Rightarrow> string option" where
  "lex_number s =
     (let sign = (if take 1 s = ''-'' then ''-'' else []);
          s1 = drop (length sign) s;
          ip = (if take 1 s1 = ''0'' then ''0'' else lex_digits s1);
          s2 = drop (length ip) s1;
          fp = (if take 1 s2 = ''.'' then ''.'' @ lex_digits (drop 1 s2) else []);
          s3 = drop (length fp) s2;
          es = (if take 1 s3 = ''e'' \<or> take 1 s3 = ''E'' then
                  (if take 1 (drop 1 s3) = ''+'' \<or> take 1 (drop 1 s3) = ''-''
                   then take 2 s3 @ lex_digits (drop 2 s3)
                   else take 1 s3 @ lex_digits (drop 1 s3))
                else [])
      in if ip = [] \<or> fp = ''.'' \<or> (es \<noteq> [] \<and> \<not> is_digit (last es)) then None
         else Some (sign @ ip @ fp @ es))"

function tokenize :: "string \<Rightarrow> token list option" where
  "tokenize [] = Some []"
| "tokenize (c # cs) =
     (if c \<in> set [CHR '' '', CHR 0x09, CHR 0x0A, CHR 0x0D] then tokenize cs
      else if c = CHR ''{'' then map_option ((#) LBrace) (tokenize cs)
      else if c = CHR ''}'' then map_option ((#) RBrace) (tokenize cs)
      else if c = CHR ''['' then map_option ((#) LBracket) (tokenize cs)
      else if c = CHR '']'' then map_option ((#) RBracket) (tokenize cs)
      else if c = CHR '':'' then map_option ((#) Colon) (tokenize cs)
      else if c = CHR '','' then map_option ((#) Comma) (tokenize cs)
      else if c = CHR 0x22 then
        (case lex_string cs of
           None \<Rightarrow> None
         | Some (s, n) \<Rightarrow> map_option ((#) (TString s)) (tokenize (drop n cs)))
      else if c = CHR ''-'' \<or> is_digit c then
        (case lex_number (c # cs) of
           None \<Rightarrow> None
         | Some lx \<Rightarrow> map_option ((#) (TNumber lx)) (tokenize (drop (length lx - 1) cs)))
      else if take 4 (c # cs) = ''true'' then map_option ((#) TTrue) (tokenize (drop 3 cs))
      else if take 5 (c # cs) = ''false'' then map_option ((#) TFalse) (tokenize (drop 4 cs))
      else if take 4 (c # cs) = ''null'' then map_option ((#) TNull) (tokenize (drop 3 cs))
      else None)"
  by pat_completeness auto
termination
  by (relation "measure length") auto

text \<open>
  The parser reads the tokens with a stack of the arrays and objects that are open.
  \<open>AMember ms k\<close> is an object with the members \<open>ms\<close> whose next member has the key \<open>k\<close>
  and no value yet.
\<close>

datatype frame =
  AnArray "json list" | AnObject "(string \<times> json) list" | AMember "(string \<times> json) list" string

datatype expecting =
  WantValue | WantValueOrClose | WantKey | WantKeyOrClose | WantColon | AfterValue | Finished json

fun complete :: "json \<Rightarrow> frame list \<Rightarrow> (expecting \<times> frame list) option" where
  "complete v [] = Some (Finished v, [])"
| "complete v (AnArray es # st) = Some (AfterValue, AnArray (es @ [v]) # st)"
| "complete v (AMember ms k # st) = Some (AfterValue, AnObject (ms @ [(k, v)]) # st)"
| "complete v (AnObject ms # st) = None"

fun scalar :: "token \<Rightarrow> json option" where
  "scalar (TString s) = Some (JString s)"
| "scalar (TNumber lx) = Some (JNumber lx)"
| "scalar TTrue = Some (JBool True)"
| "scalar TFalse = Some (JBool False)"
| "scalar TNull = Some JNull"
| "scalar t = None"

definition parse_step :: "expecting \<times> frame list \<Rightarrow> token \<Rightarrow> (expecting \<times> frame list) option" where
  "parse_step cfg t =
     (case cfg of (ex, st) \<Rightarrow>
        if ex = WantValue \<or> ex = WantValueOrClose then
          (case scalar t of
             Some v \<Rightarrow> complete v st
           | None \<Rightarrow>
               if t = LBracket then Some (WantValueOrClose, AnArray [] # st)
               else if t = LBrace then Some (WantKeyOrClose, AnObject [] # st)
               else if t = RBracket \<and> ex = WantValueOrClose then
                 (case st of AnArray es # st' \<Rightarrow> complete (JArray es) st' | _ \<Rightarrow> None)
               else None)
        else if ex = WantKey \<or> ex = WantKeyOrClose then
          (case st of
             AnObject ms # st' \<Rightarrow>
               (case t of
                  TString k \<Rightarrow> Some (WantColon, AMember ms k # st')
                | RBrace \<Rightarrow> if ex = WantKeyOrClose then complete (JObject ms) st' else None
                | _ \<Rightarrow> None)
           | _ \<Rightarrow> None)
        else if ex = WantColon then (if t = Colon then Some (WantValue, st) else None)
        else if ex = AfterValue then
          (case st of
             AnArray es # st' \<Rightarrow>
               if t = Comma then Some (WantValue, st)
               else if t = RBracket then complete (JArray es) st'
               else None
           | AnObject ms # st' \<Rightarrow>
               if t = Comma then Some (WantKey, st)
               else if t = RBrace then complete (JObject ms) st'
               else None
           | _ \<Rightarrow> None)
        else None)"

fun parse_tokens :: "expecting \<times> frame list \<Rightarrow> token list \<Rightarrow> (expecting \<times> frame list) option" where
  "parse_tokens cfg [] = Some cfg"
| "parse_tokens cfg (t # ts) =
     (case parse_step cfg t of None \<Rightarrow> None | Some cfg' \<Rightarrow> parse_tokens cfg' ts)"

definition JSON_parse :: "string \<Rightarrow> error + json" where
  "JSON_parse s =
     (case tokenize s of
        None \<Rightarrow> Inl SyntaxError
      | Some ts \<Rightarrow>
          (case parse_tokens (WantValue, []) ts of
             Some (Finished v, []) \<Rightarrow> Inr v
           | _ \<Rightarrow> Inl SyntaxError))"

text \<open>
  \<^verbatim>\<open>const { key } = v\<close> for a parsed value \<open>v\<close> and a key that no prototype defines
  (\<^verbatim>\<open>content\<close>, \<^verbatim>\<open>settings\<close>): \<^verbatim>\<open>null\<close> cannot be destructured; an object gives
  its member of that key, the last one when the key is repeated; every other value
  gives \<^verbatim>\<open>undefined\<close>, which is \<open>None\<close>.
\<close>

definition destructure :: "string \<Rightarrow> json \<Rightarrow> error + json option" where
  "destructure key v =
     (case v of
        JNull \<Rightarrow> Inl TypeError
      | JObject ms \<Rightarrow> Inr (map_of (rev ms) key)
      | _ \<Rightarrow> Inr None)"

text \<open>
  The text \<^verbatim>\<open>JSON.parse\<close> makes of an argument that is not a string. An array is its
  elements' texts joined by commas, with nothing for \<^verbatim>\<open>null\<close>.
\<close>

fun join_commas :: "string list \<Rightarrow> string" where
  "join_commas [] = []"
| "join_commas [x] = x"
| "join_commas (x # y # ys) = x @ '','' @ join_commas (y # ys)"

fun ToString :: "host \<Rightarrow> json \<Rightarrow> string" where
  "ToString h JNull = ''null''"
| "ToString h (JBool b) = (if b then ''true'' else ''false'')"
| "ToString h (JNumber lx) = numberToString h lx"
| "ToString h (JString s) = s"
| "ToString h (JObject ms) = ''[object Object]''"
| "ToString h (JArray es) =
     join_commas (map (\<lambda>e. if e = JNull then [] else ToString h e) es)"

definition ToString_opt :: "host \<Rightarrow> json option \<Rightarrow> string" where
  "ToString_opt h v = (case v of None \<Rightarrow> ''undefined'' | Some j \<Rightarrow> ToString h j)"

text \<open>
  \<^verbatim>\<open>UserDataSyncBackupResolver.resolveContent\<close>: the inherited read, then the two
  \<^verbatim>\<open>JSON.parse\<close> calls with their destructuring; nothing is caught. The result is
  whatever \<^verbatim>\<open>settings\<close> holds, \<open>None\<close> for \<^verbatim>\<open>undefined\<close>.
\<close>

definition Sync_resolveContent ::
  "host \<Rightarrow> UserDataBackupResolver \<Rightarrow> UserDataResource \<Rightarrow> string \<Rightarrow> world
     \<Rightarrow> (error + json option) \<times> world" where
  "Sync_resolveContent h rs r nm w =
     (case Resolver_resolveContent rs r nm w of
        (Inl e, w') \<Rightarrow> (Inl e, w')
      | (Inr resolvedContent, w') \<Rightarrow>
          (case JSON_parse resolvedContent of
             Inl e \<Rightarrow> (Inl e, w')
           | Inr outer \<Rightarrow>
               (case destructure ''content'' outer of
                  Inl e \<Rightarrow> (Inl e, w')
                | Inr content \<Rightarrow>
                    (case JSON_parse (ToString_opt h content) of
                       Inl e \<Rightarrow> (Inl e, w')
                     | Inr inner \<Rightarrow>
                         (case destructure ''settings'' inner of
                            Inl e \<Rightarrow> (Inl e, w')
                          | Inr settings \<Rightarrow> (Inr settings, w'))))))"

section \<open>Example inputs\<close>

text \<open>
  Concrete hosts, disks and clock readings on which the statements below are evaluated:
  a host in the UTC zone, and a disk that holds the root directory only.
\<close>

definition host_utc :: host where
  "host_utc = \<lparr>localTZA = (\<lambda>t. 0), numberToString = (\<lambda>lx. lx)\<rparr>"

definition empty_disk :: filesystem where
  "empty_disk = \<lparr>nodes = [[] \<mapsto> Dir []], fault = (\<lambda>c p. None)\<rparr>"

definition example_service :: UserDataBackupService where
  "example_service = new_UserDataBackupService [''home'', ''User'', ''globalStorage'', ''ext'']"

text \<open>
  A disk with the live settings file and a settings folder that lists two snapshots, one
  with the suffix and one without, and a file that is no snapshot.
\<close>

definition history_disk :: filesystem where
  "history_disk =
     \<lparr>nodes =
        [[] \<mapsto> Dir [''home''],
         [''home''] \<mapsto> Dir [''User''],
         [''home'', ''User''] \<mapsto> Dir [''globalStorage'', ''settings.json''],
         [''home'', ''User'', ''settings.json''] \<mapsto> File ''{}'',
         [''home'', ''User'', ''globalStorage''] \<mapsto> Dir [''ext''],
         [''home'', ''User'', ''globalStorage'', ''ext''] \<mapsto> Dir [''userdata-backup''],
         [''home'', ''User'', ''globalStorage'', ''ext'', ''userdata-backup''] \<mapsto> Dir [''settings''],
         [''home'', ''User'', ''globalStorage'', ''ext'', ''userdata-backup'', ''settings''] \<mapsto>
           Dir [''20230614T090000'', ''notes.txt'', ''20230615T143022.json''],
         [''home'', ''User'', ''globalStorage'', ''ext'', ''userdata-backup'', ''settings'',
          ''20230614T090000''] \<mapsto> File ''{ }'',
         [''home'', ''User'', ''globalStorage'', ''ext'', ''userdata-backup'', ''settings'',
          ''notes.txt''] \<mapsto> File ''n'',
         [''home'', ''User'', ''globalStorage'', ''ext'', ''userdata-backup'', ''settings'',
          ''20230615T143022.json''] \<mapsto> File ''{}''],
      fault = (\<lambda>c p. None)\<rparr>"

definition history_world :: world where
  "history_world = \<lparr>files = history_disk, fired = []\<rparr>"

definition example_entry :: IUserDataBackupEntry_uri where
  "example_entry =
     \<lparr>resource = Settings, name = ''20230615T143022.json'', created = Some 1686839422000,
      uri = \<lparr>uri_scheme = ''userdata-timeline'', uri_path = [''settings'', ''20230615T143022.json'']\<rparr>\<rparr>"

definition settings_uri :: Uri where
  "settings_uri = \<lparr>uri_scheme = ''vscode-userdata'', uri_path = [''home'', ''User'', ''settings.json'']\<rparr>"

text \<open>
  The stored value \<^verbatim>\<open>{"content":"{\"settings\":\"FOO\"}"}\<close>, the text its \<open>content\<close>
  holds, and a disk whose sync folder has a snapshot with this value, one that is not
  JSON and one whose \<open>content\<close> is not JSON.
\<close>

definition stored_sync_value :: string where
  "stored_sync_value =
     ''{'' @ [CHR 0x22] @ ''content'' @ [CHR 0x22] @ '':'' @ [CHR 0x22] @
     ''{'' @ [CHR 0x5C, CHR 0x22] @ ''settings'' @ [CHR 0x5C, CHR 0x22] @ '':'' @
     [CHR 0x5C, CHR 0x22] @ ''FOO'' @ [CHR 0x5C, CHR 0x22] @ ''}'' @ [CHR 0x22] @ ''}''"

definition stored_sync_content :: string where
  "stored_sync_content =
     ''{'' @ [CHR 0x22] @ ''settings'' @ [CHR 0x22] @ '':'' @ [CHR 0x22] @ ''FOO'' @ [CHR 0x22] @ ''}''"

definition broken_inner_value :: string where
  "broken_inner_value =
     ''{'' @ [CHR 0x22] @ ''content'' @ [CHR 0x22] @ '':'' @ [CHR 0x22] @ ''{'' @ [CHR 0x22] @ ''}''"

definition sync_resolver :: UserDataBackupResolver where
  "sync_resolver = new_UserDataSyncBackupResolver [''home'', ''User'', ''globalStorage'', ''ext'']"

definition sync_disk :: filesystem where
  "sync_disk =
     \<lparr>nodes =
        [[] \<mapsto> Dir [''home''],
         [''home''] \<mapsto> Dir [''User''],
         [''home'', ''User''] \<mapsto> Dir [''sync''],
         [''home'', ''User'', ''sync''] \<mapsto> Dir [''settings''],
         [''home'', ''User'', ''sync'', ''settings''] \<mapsto>
           Dir [''20230615T143022.json'', ''20230616T080000.json'', ''20230617T080000.json''],
         [''home'', ''User'', ''sync'', ''settings'', ''20230615T143022.json''] \<mapsto>
           File stored_sync_value,
         [''home'', ''User'', ''sync'', ''settings'', ''20230616T080000.json''] \<mapsto> File ''{'',
         [''home'', ''User'', ''sync'', ''settings'', ''20230617T080000.json''] \<mapsto>
           File broken_inner_value],
      fault = (\<lambda>c p. None)\<rparr>"

definition sync_world :: world where
  "sync_world = \<lparr>files = sync_disk, fired = []\<rparr>"

definition two_digits :: "nat \<Rightarrow> string" where
  "two_digits n = [digit_char (n div 10), digit_char (n mod 10)]"

text \<open>
  The name the specification describes: the year, then month, day, hour, minute and
  second with two digits each, the letter T between day and hour.
\<close>

definition local_stamp :: "js_date \<Rightarrow> string" where
  "local_stamp d =
     show_nat (nat \<bar>getFullYear d\<bar>) @ two_digits (getMonth d + 1) @ two_digits (getDate d) @
     ''T'' @ two_digits (getHours d) @ two_digits (getMinutes d) @ two_digits (getSeconds d)"

definition plain_component :: "string \<Rightarrow> bool" where
  "plain_component c = (CHR ''/'' \<notin> set c \<and> c \<noteq> [] \<and> c \<noteq> ''.'' \<and> c \<noteq> ''..'')"


definition clock_reading :: js_date where
  "clock_reading =
     \<lparr>getFullYear = 2023, getMonth = 5, getDate = 16, getHours = 8, getMinutes = 5,
      getSeconds = 9, getMilliseconds = 7\<rparr>"

text \<open>An entry of the resolver without its uri.\<close>

definition without_uri :: "IUserDataBackupEntry_uri \<Rightarrow> IUserDataBackupEntry" where
  "without_uri e = \<lparr>resource = resource e, name = name e, created = created e\<rparr>"

text \<open>
  A Linux host whose editor is not the Insiders build: the global storage folder lies
  under \<^verbatim>\<open>Code\<close>, the folder \<^verbatim>\<open>getUserDataPath\<close> names lies under
  \<^verbatim>\<open>Code - Insiders\<close>. Both folders hold a settings file.
\<close>

definition stable_env :: process_env where
  "stable_env = \<lparr>process_platform = Linux, env_USERPROFILE = [], os_homedir = [''home'']\<rparr>"

definition stable_storage :: path where
  "stable_storage = [''home'', ''.config'', ''Code'', ''User'', ''globalStorage'', ''ext'']"

definition insiders_service :: UserDataBackupService where
  "insiders_service =
     \<lparr>userDataPath = [''home'', ''.config'', ''Code - Insiders'', ''User''],
      userDataBackupFolder =
        [''home'', ''.config'', ''Code'', ''User'', ''globalStorage'', ''ext'', ''userdata-backup'']\<rparr>"

definition two_editors_disk :: filesystem where
  "two_editors_disk =
     \<lparr>nodes =
        [[] \<mapsto> Dir [''home''],
         [''home''] \<mapsto> Dir [''.config''],
         [''home'', ''.config''] \<mapsto> Dir [''Code'', ''Code - Insiders''],
         [''home'', ''.config'', ''Code - Insiders''] \<mapsto> Dir [''User''],
         [''home'', ''.config'', ''Code - Insiders'', ''User''] \<mapsto> Dir [''settings.json''],
         [''home'', ''.config'', ''Code - Insiders'', ''User'', ''settings.json''] \<mapsto> File ''insiders'',
         [''home'', ''.config'', ''Code''] \<mapsto> Dir [''User''],
         [''home'', ''.config'', ''Code'', ''User''] \<mapsto> Dir [''settings.json'', ''globalStorage''],
         [''home'', ''.config'', ''Code'', ''User'', ''settings.json''] \<mapsto> File ''stable'',
         [''home'', ''.config'', ''Code'', ''User'', ''globalStorage''] \<mapsto> Dir [''ext''],
         [''home'', ''.config'', ''Code'', ''User'', ''globalStorage'', ''ext''] \<mapsto> Dir []],
      fault = (\<lambda>c p. None)\<rparr>"

definition two_editors_world :: world where
  "two_editors_world = \<lparr>files = two_editors_disk, fired = []\<rparr>"


text \<open>
  A wall-clock reading that is not later than another: the lexicographic order of
  year, month, day, hour, minute and second.
\<close>

definition not_after :: "js_date \<Rightarrow> js_date \<Rightarrow> bool" where
  "not_after a b =
     (getFullYear a < getFullYear b \<or> (getFullYear a = getFullYear b \<and>
      (getMonth a < getMonth b \<or> (getMonth a = getMonth b \<and>
       (getDate a < getDate b \<or> (getDate a = getDate b \<and>
        (getHours a < getHours b \<or> (getHours a = getHours b \<and>
         (getMinutes a < getMinutes b \<or> (getMinutes a = getMinutes b \<and>
          getSeconds a \<le> getSeconds b))))))))))"


text \<open>
  A clock in the year 10000, and a disk whose settings folder may be written but not
  listed.
\<close>

definition far_clock :: js_date where
  "far_clock =
     \<lparr>getFullYear = 10000, getMonth = 0, getDate = 1, getHours = 0, getMinutes = 0,
      getSeconds = 0, getMilliseconds = 0\<rparr>"

definition empty_folder_world :: world where
  "empty_folder_world =
     \<lparr>files = history_disk\<lparr>nodes := (nodes history_disk)
        ([''home'', ''User'', ''globalStorage'', ''ext'', ''userdata-backup'', ''settings''] \<mapsto> Dir [])\<rparr>,
      fired = []\<rparr>"

definition unlistable_disk :: filesystem where
  "unlistable_disk =
     history_disk\<lparr>fault :=
       (\<lambda>c p. if c = Readdir \<and>
                 p = [''home'', ''User'', ''globalStorage'', ''ext'', ''userdata-backup'', ''settings'']
               then Some EACCES else None)\<rparr>"

text \<open>
  The clock reading, half a second on, of the snapshot \<^verbatim>\<open>20230615T143022.json\<close> that the
  disk above already holds.
\<close>

definition snapshot_clock :: js_date where
  "snapshot_clock =
     \<lparr>getFullYear = 2023, getMonth = 5, getDate = 15, getHours = 14, getMinutes = 30,
      getSeconds = 22, getMilliseconds = 500\<rparr>"








section \<open>Properties\<close>

subsection \<open>Digits and numbers\<close>

lemma is_digit_code: "is_digit c \<Longrightarrow> 48 \<le> (of_char c :: nat) \<and> (of_char c :: nat) \<le> 57"
  by (auto simp: is_digit_def)

lemma digit_val_less: "is_digit c \<Longrightarrow> digit_val c < 10"
  using is_digit_code [of c] by (auto simp: digit_val_def)

lemma is_digit_not_special:
  assumes "is_digit c"
  shows "\<not> is_space c" "c \<noteq> CHR ''-''" "c \<noteq> CHR ''+''" "c \<noteq> CHR ''x''" "c \<noteq> CHR ''X''"
  using assms by (auto simp: is_digit_def is_space_def)

lemma list_all_take: "list_all P xs \<Longrightarrow> list_all P (take k xs)"
  by (auto simp: list_all_iff dest: in_set_takeD)

lemma list_all_drop: "list_all P xs \<Longrightarrow> list_all P (drop k xs)"
  by (auto simp: list_all_iff dest: in_set_dropD)

lemma takeWhile_all: "list_all P xs \<Longrightarrow> takeWhile P xs = xs"
  by (induction xs) auto

lemma parse_magnitude_digits:
  assumes "s \<noteq> []" "list_all is_digit s"
  shows "parse_magnitude s = Some (dec s)"
proof -
  have nohex: "take 2 s \<noteq> ''0x''" "take 2 s \<noteq> ''0X''"
  proof -
    show "take 2 s \<noteq> ''0x''"
    proof
      assume "take 2 s = ''0x''"
      then have "CHR ''x'' \<in> set (take 2 s)" by simp
      then have "CHR ''x'' \<in> set s" by (rule in_set_takeD)
      with assms(2) have "is_digit CHR ''x''" by (simp add: list_all_iff)
      then show False by (simp add: is_digit_def)
    qed
    show "take 2 s \<noteq> ''0X''"
    proof
      assume "take 2 s = ''0X''"
      then have "CHR ''X'' \<in> set (take 2 s)" by simp
      then have "CHR ''X'' \<in> set s" by (rule in_set_takeD)
      with assms(2) have "is_digit CHR ''X''" by (simp add: list_all_iff)
      then show False by (simp add: is_digit_def)
    qed
  qed
  from assms show ?thesis
    by (simp add: parse_magnitude_def nohex takeWhile_all)
qed

lemma parseInt_digits:
  assumes "s \<noteq> []" "list_all is_digit s"
  shows "parseInt s = Some (int (dec s))"
proof -
  from assms obtain c cs where s: "s = c # cs" and c: "is_digit c"
    by (cases s) auto
  have "dropWhile is_space s = s"
    using s is_digit_not_special(1)[OF c] by simp
  then show ?thesis
    using s is_digit_not_special(2,3)[OF c] parse_magnitude_digits[OF assms]
    by (simp add: parseInt_def)
qed



subsection \<open>The name pattern\<close>

lemma match_digits_iff:
  "match_digits k s = Some r \<longleftrightarrow> (\<exists>ds. length ds = k \<and> list_all is_digit ds \<and> s = ds @ r)"
proof (induction k s rule: match_digits.induct)
  case (1 s)
  then show ?case by auto
next
  case (2 n)
  then show ?case by auto
next
  case (3 n c cs)
  show ?case
  proof
    assume "match_digits (Suc n) (c # cs) = Some r"
    then have c: "is_digit c" and m: "match_digits n cs = Some r"
      by (auto split: if_splits)
    from m 3 c obtain ds where "length ds = n" "list_all is_digit ds" "cs = ds @ r"
      by auto
    with c have "length (c # ds) = Suc n \<and> list_all is_digit (c # ds) \<and> c # cs = (c # ds) @ r"
      by simp
    then show "\<exists>ds. length ds = Suc n \<and> list_all is_digit ds \<and> c # cs = ds @ r"
      by blast
  next
    assume "\<exists>ds. length ds = Suc n \<and> list_all is_digit ds \<and> c # cs = ds @ r"
    then obtain ds where ds: "length ds = Suc n" "list_all is_digit ds" "c # cs = ds @ r"
      by blast
    then obtain d ds' where d: "ds = d # ds'"
      by (cases ds) auto
    with ds have "is_digit c" "length ds' = n" "list_all is_digit ds'" "cs = ds' @ r"
      by auto
    with 3 show "match_digits (Suc n) (c # cs) = Some r"
      by auto
  qed
qed

lemma matches_backup_name_iff:
  "matches_backup_name n \<longleftrightarrow>
     (\<exists>ds ts. length ds = 8 \<and> length ts = 6 \<and> list_all is_digit ds \<and> list_all is_digit ts \<and>
        (n = ds @ ''T'' @ ts \<or> n = ds @ ''T'' @ ts @ ''.json''))"
proof
  assume "matches_backup_name n"
  then obtain r1 r2 r3 where a: "match_digits 8 n = Some r1" "r1 = CHR ''T'' # r2"
      "match_digits 6 r2 = Some r3" "r3 = ''.json'' \<or> r3 = []"
    unfolding matches_backup_name_def by (auto split: option.splits list.splits)
  from a(1) obtain ds where ds: "length ds = 8" "list_all is_digit ds" "n = ds @ r1"
    unfolding match_digits_iff by blast
  from a(3) obtain ts where ts: "length ts = 6" "list_all is_digit ts" "r2 = ts @ r3"
    unfolding match_digits_iff by blast
  from a(2,4) ds ts have "n = ds @ ''T'' @ ts \<or> n = ds @ ''T'' @ ts @ ''.json''"
    by auto
  with ds ts show "\<exists>ds ts. length ds = 8 \<and> length ts = 6 \<and> list_all is_digit ds \<and> list_all is_digit ts \<and>
        (n = ds @ ''T'' @ ts \<or> n = ds @ ''T'' @ ts @ ''.json'')"
    by blast
next
  assume "\<exists>ds ts. length ds = 8 \<and> length ts = 6 \<and> list_all is_digit ds \<and> list_all is_digit ts \<and>
        (n = ds @ ''T'' @ ts \<or> n = ds @ ''T'' @ ts @ ''.json'')"
  then obtain ds ts where h: "length ds = 8" "length ts = 6" "list_all is_digit ds"
      "list_all is_digit ts" "n = ds @ ''T'' @ ts \<or> n = ds @ ''T'' @ ts @ ''.json''"
    by blast
  from h(5) obtain r3 where r3: "n = ds @ CHR ''T'' # ts @ r3" "r3 = ''.json'' \<or> r3 = []"
    by auto
  have m1: "match_digits 8 n = Some (CHR ''T'' # ts @ r3)"
    unfolding match_digits_iff using h r3 by blast
  have m2: "match_digits 6 (ts @ r3) = Some r3"
    unfolding match_digits_iff using h by blast
  show "matches_backup_name n"
    unfolding matches_backup_name_def using m1 m2 r3(2) by auto
qed

subsection \<open>Failures of the primary store\<close>

text \<open>
  Claim C4. In the primary store \<open>getAllEntries\<close> never rejects: its result is always a
  list, and it is the empty list whenever listing the resource's folder fails, for any
  reason, in particular when the folder does not exist. \<open>resolveContent\<close> never rejects
  either: its result is always a string, and it is the empty string whenever the read
  fails, in particular when no node has the snapshot's name.
\<close>

theorem primary_store_fail_soft:
  "(\<exists>es. fst (getAllEntries h svc r w) = Inr es) \<and>
   (\<forall>e. fs_readdir (files w) (path_join (userDataBackupFolder svc) [resource_text r]) = Inl e
      \<longrightarrow> fst (getAllEntries h svc r w) = Inr []) \<and>
   (nodes (files w) (path_join (userDataBackupFolder svc) [resource_text r]) = None
      \<longrightarrow> fst (getAllEntries h svc r w) = Inr []) \<and>
   (\<exists>s. fst (resolveContent svc r nm w) = Inr s) \<and>
   (\<forall>e. fs_readFile (files w) (path_join (userDataBackupFolder svc) [resource_text r, nm]) = Inl e
      \<longrightarrow> fst (resolveContent svc r nm w) = Inr []) \<and>
   (nodes (files w) (path_join (userDataBackupFolder svc) [resource_text r, nm]) = None
      \<longrightarrow> fst (resolveContent svc r nm w) = Inr [])"
proof -
  have a: "\<exists>es. fst (getAllEntries h svc r w) = Inr es"
    by (simp add: getAllEntries_def Let_def split: sum.splits)
  have b: "fst (getAllEntries h svc r w) = Inr []"
    if "fs_readdir (files w) (path_join (userDataBackupFolder svc) [resource_text r]) = Inl e" for e
    using that by (simp add: getAllEntries_def)
  have c: "fst (getAllEntries h svc r w) = Inr []"
    if "nodes (files w) (path_join (userDataBackupFolder svc) [resource_text r]) = None"
    using that by (simp add: getAllEntries_def fs_readdir_def Let_def split: option.splits)
  have d: "\<exists>s. fst (resolveContent svc r nm w) = Inr s"
    by (simp add: resolveContent_def Let_def split: sum.splits)
  have e: "fst (resolveContent svc r nm w) = Inr []"
    if "fs_readFile (files w) (path_join (userDataBackupFolder svc) [resource_text r, nm]) = Inl e" for e
    using that by (simp add: resolveContent_def)
  have f: "fst (resolveContent svc r nm w) = Inr []"
    if "nodes (files w) (path_join (userDataBackupFolder svc) [resource_text r, nm]) = None"
    using that by (simp add: resolveContent_def fs_readFile_def Let_def split: option.splits)
  from a b c d e f show ?thesis by blast
qed

theorem primary_store_fail_soft_witness:
  "nodes empty_disk [''g'', ''userdata-backup'', ''settings''] = None \<and>
   fst (getAllEntries host_utc (new_UserDataBackupService [''g'']) Settings
          \<lparr>files = empty_disk, fired = []\<rparr>) = Inr [] \<and>
   nodes empty_disk [''g'', ''userdata-backup'', ''settings'', ''20230615T143022.json''] = None \<and>
   fst (resolveContent (new_UserDataBackupService [''g'']) Settings ''20230615T143022.json''
          \<lparr>files = empty_disk, fired = []\<rparr>) = Inr []"
  using primary_store_fail_soft [of host_utc "new_UserDataBackupService [''g'']" Settings
      "\<lparr>files = empty_disk, fired = []\<rparr>" "''20230615T143022.json''"]
  by (simp add: empty_disk_def new_UserDataBackupService_def path_join_def path_step_def)

subsection \<open>Listing twice\<close>

text \<open>
  Claim C9. \<open>getAllEntries\<close> leaves the file system and the fired events as they are,
  and a second call right after the first, with no call in between, returns the same
  sequence in the same order.
\<close>

theorem getAllEntries_idempotent:
  "snd (getAllEntries h svc r w) = w \<and>
   fst (getAllEntries h svc r (snd (getAllEntries h svc r w))) = fst (getAllEntries h svc r w)"
proof -
  have "snd (getAllEntries h svc r w) = w"
    by (simp add: getAllEntries_def Let_def split: sum.splits)
  then show ?thesis by simp
qed


theorem getAllEntries_idempotent_witness:
  "fst (getAllEntries host_utc example_service Settings
          (snd (getAllEntries host_utc example_service Settings history_world))) =
     Inr [\<lparr>resource = Settings, name = ''20230615T143022.json'', created = Some 1686839422000\<rparr>,
          \<lparr>resource = Settings, name = ''20230614T090000'', created = Some 1686733200000\<rparr>]"
proof -
  have e: "fst (getAllEntries host_utc example_service Settings history_world) =
     Inr [\<lparr>resource = Settings, name = ''20230615T143022.json'', created = Some 1686839422000\<rparr>,
          \<lparr>resource = Settings, name = ''20230614T090000'', created = Some 1686733200000\<rparr>]"
    by code_simp
  from getAllEntries_idempotent [of host_utc example_service Settings history_world] e
  show ?thesis by simp
qed

subsection \<open>Which names are listed\<close>

text \<open>
  Claim C7. When the folder can be listed, a name is among the names of the entries
  exactly when the folder lists it and it is eight digits, the letter T and six digits,
  with or without \<^verbatim>\<open>.json\<close> after them; every other name is left out.
\<close>

lemma entry_names:
  "map name (map (\<lambda>n. \<lparr>resource = r, name = n, created = f n\<rparr>) xs) = xs"
  by (induction xs) auto

theorem getAllEntries_accepts_pattern:
  assumes "fs_readdir (files w) (path_join (userDataBackupFolder svc) [resource_text r]) = Inr children"
  shows "\<exists>es. fst (getAllEntries h svc r w) = Inr es \<and>
           (\<forall>n. n \<in> set (map name es) \<longleftrightarrow>
              n \<in> set children \<and>
              (\<exists>ds ts. length ds = 8 \<and> length ts = 6 \<and> list_all is_digit ds \<and> list_all is_digit ts \<and>
                 (n = ds @ ''T'' @ ts \<or> n = ds @ ''T'' @ ts @ ''.json'')))"
proof -
  let ?all = "rev (sort (filter matches_backup_name children))"
  let ?es = "map (\<lambda>n. \<lparr>resource = r, name = n, created = getCreationTime h n\<rparr>) ?all"
  have res: "fst (getAllEntries h svc r w) = Inr ?es"
    using assms by (simp add: getAllEntries_def)
  have names: "map name ?es = ?all"
    by (rule entry_names)
  have "n \<in> set (map name ?es) \<longleftrightarrow> n \<in> set children \<and> matches_backup_name n" for n
    unfolding names by auto
  with res show ?thesis
    unfolding matches_backup_name_iff by blast
qed


theorem getAllEntries_accepts_pattern_witness:
  "fs_readdir (files history_world)
      (path_join (userDataBackupFolder example_service) [resource_text Settings]) =
     Inr [''20230614T090000'', ''notes.txt'', ''20230615T143022.json''] \<and>
   (\<exists>es. fst (getAllEntries host_utc example_service Settings history_world) = Inr es \<and>
      ''20230614T090000'' \<in> set (map name es) \<and>
      ''20230615T143022.json'' \<in> set (map name es) \<and>
      ''notes.txt'' \<notin> set (map name es))"
proof -
  have rd: "fs_readdir (files history_world)
      (path_join (userDataBackupFolder example_service) [resource_text Settings]) =
     Inr [''20230614T090000'', ''notes.txt'', ''20230615T143022.json'']"
    by code_simp
  have m: "matches_backup_name ''20230614T090000''" "matches_backup_name ''20230615T143022.json''"
    "\<not> matches_backup_name ''notes.txt''"
    by code_simp+
  from getAllEntries_accepts_pattern [OF rd, of host_utc] obtain es where
    es: "fst (getAllEntries host_utc example_service Settings history_world) = Inr es" and
    names: "\<And>n. n \<in> set (map name es) \<longleftrightarrow>
      n \<in> set [''20230614T090000'', ''notes.txt'', ''20230615T143022.json''] \<and>
      (\<exists>ds ts. length ds = 8 \<and> length ts = 6 \<and> list_all is_digit ds \<and> list_all is_digit ts \<and>
         (n = ds @ ''T'' @ ts \<or> n = ds @ ''T'' @ ts @ ''.json''))"
    by blast
  have listed: "n \<in> set (map name es) \<longleftrightarrow>
      n \<in> set [''20230614T090000'', ''notes.txt'', ''20230615T143022.json''] \<and> matches_backup_name n"
    for n
    unfolding matches_backup_name_iff by (rule names)
  have "''20230614T090000'' \<in> set (map name es)"
    unfolding listed using m(1) by simp
  moreover have "''20230615T143022.json'' \<in> set (map name es)"
    unfolding listed using m(2) by simp
  moreover have "''notes.txt'' \<notin> set (map name es)"
    unfolding listed using m(3) by simp
  ultimately show ?thesis
    using rd es by blast
qed

subsection \<open>The page of a timeline\<close>

text \<open>
  Claim C6. With no cursor the page holds the entries at positions 0 to 9 and the next
  cursor is the text 10, present exactly when there are more than 10 entries. With a
  cursor that is a non-empty string of decimal digits of value \<open>k\<close>, the page holds the
  entries at positions \<open>k\<close> to \<open>k + 9\<close> and the next cursor is \<open>k + 10\<close> in decimal, present
  exactly when there are more than \<open>k + 10\<close> entries. With 25 entries and no cursor this
  is 10 items and the cursor 10; with the cursor 20 it is the last 5 items and no cursor.
\<close>

lemma slice_index_nat: "slice_index len (Some (int a)) = min a len"
  by (simp add: slice_index_def min_def)

lemma slice_index_nat_plus: "slice_index len (Some (int a + 10)) = min (a + 10) len"
proof -
  have "int a + 10 = int (a + 10)" by simp
  then show ?thesis
    using slice_index_nat [of len "a + 10"] by (simp only:)
qed

lemma js_slice_window:
  "js_slice xs (Some (int a)) (Some (int a + 10)) = take 10 (drop a xs)"
proof -
  have "js_slice xs (Some (int a)) (Some (int a + 10)) =
      take (min (a + 10) (length xs) - min a (length xs)) (drop (min a (length xs)) xs)"
    by (simp only: js_slice_def Let_def slice_index_nat slice_index_nat_plus)
  also have "\<dots> = take 10 (drop a xs)"
    by (cases "a \<le> length xs") (auto simp: min_def)
  finally show ?thesis .
qed

lemma show_int_nat: "show_int (int n) = show_nat n"
  by (simp add: show_int_def)

lemma timeline_of_offset:
  assumes "(case truthy_cursor options of None \<Rightarrow> Some 0 | Some c \<Rightarrow> parseInt c) = Some (int a)"
  shows "items (timeline_of es u options) = map (\<lambda>e. toTimelineItem e u) (take 10 (drop a es))"
    and "paging_cursor (timeline_of es u options) =
           (if length es > a + 10 then Some (show_nat (a + 10)) else None)"
proof -
  have f: "filterEntries es options = take 10 (drop a es)"
  proof (cases "truthy_cursor options")
    case None
    with assms have "a = 0" by simp
    with None show ?thesis
      using js_slice_window [of es 0] by (simp add: filterEntries_def)
  next
    case (Some c)
    with assms have "parseInt c = Some (int a)" by simp
    with Some show ?thesis
      using js_slice_window [of es a] by (simp add: filterEntries_def)
  qed
  show "items (timeline_of es u options) = map (\<lambda>e. toTimelineItem e u) (take 10 (drop a es))"
    by (simp add: timeline_of_def f)
  have n: "(case truthy_cursor options of None \<Rightarrow> Some 10 | Some c \<Rightarrow> map_option (\<lambda>s. s + 10) (parseInt c))
      = Some (int (a + 10))"
    using assms by (cases "truthy_cursor options") auto
  have "int (a + 10) < int (length es) \<longleftrightarrow> a + 10 < length es"
    by linarith
  then show "paging_cursor (timeline_of es u options) =
           (if length es > a + 10 then Some (show_nat (a + 10)) else None)"
    unfolding timeline_of_def Let_def
    by (simp add: n show_int_nat del: of_nat_add)
qed

theorem timeline_page:
  "(cursor options = None \<longrightarrow>
      items (timeline_of es u options) = map (\<lambda>e. toTimelineItem e u) (take 10 es) \<and>
      paging_cursor (timeline_of es u options) =
        (if length es > 10 then Some ''10'' else None)) \<and>
   (\<forall>c. cursor options = Some c \<and> c \<noteq> [] \<and> list_all is_digit c \<longrightarrow>
      items (timeline_of es u options) = map (\<lambda>e. toTimelineItem e u) (take 10 (drop (dec c) es)) \<and>
      paging_cursor (timeline_of es u options) =
        (if length es > dec c + 10 then Some (show_nat (dec c + 10)) else None)) \<and>
   (length es = 25 \<and> cursor options = None \<longrightarrow>
      length (items (timeline_of es u options)) = 10 \<and>
      paging_cursor (timeline_of es u options) = Some ''10'') \<and>
   (length es = 25 \<and> cursor options = Some ''20'' \<longrightarrow>
      items (timeline_of es u options) = map (\<lambda>e. toTimelineItem e u) (drop 20 es) \<and>
      length (items (timeline_of es u options)) = 5 \<and>
      paging_cursor (timeline_of es u options) = None)"
proof -
  have ten: "show_nat 10 = ''10''"
    by (simp add: show_nat.simps digit_char_def)
  have absent: "items (timeline_of es u options) = map (\<lambda>e. toTimelineItem e u) (take 10 es) \<and>
      paging_cursor (timeline_of es u options) = (if length es > 10 then Some ''10'' else None)"
    if "cursor options = None"
  proof -
    from that have "(case truthy_cursor options of None \<Rightarrow> Some 0 | Some c \<Rightarrow> parseInt c) = Some (int 0)"
      by (simp add: truthy_cursor_def)
    from timeline_of_offset [OF this, of es u] show ?thesis
      by (simp add: ten)
  qed
  have present: "items (timeline_of es u options) = map (\<lambda>e. toTimelineItem e u) (take 10 (drop (dec c) es)) \<and>
      paging_cursor (timeline_of es u options) =
        (if length es > dec c + 10 then Some (show_nat (dec c + 10)) else None)"
    if "cursor options = Some c" "c \<noteq> []" "list_all is_digit c" for c
  proof -
    from that have "(case truthy_cursor options of None \<Rightarrow> Some 0 | Some c \<Rightarrow> parseInt c) = Some (int (dec c))"
      by (simp add: truthy_cursor_def parseInt_digits)
    from timeline_of_offset [OF this, of es u] show ?thesis
      by simp
  qed
  have twenty: "dec ''20'' = 20" "list_all is_digit ''20''"
    by (simp_all add: dec_def digit_val_def is_digit_def)
  have thirty: "show_nat 30 = ''30''"
    by (simp add: show_nat.simps digit_char_def)
  have ex1: "length (items (timeline_of es u options)) = 10 \<and>
      paging_cursor (timeline_of es u options) = Some ''10''"
    if "length es = 25" "cursor options = None"
    using absent [OF that(2)] that(1) by simp
  have ex2: "items (timeline_of es u options) = map (\<lambda>e. toTimelineItem e u) (drop 20 es) \<and>
      length (items (timeline_of es u options)) = 5 \<and>
      paging_cursor (timeline_of es u options) = None"
    if "length es = 25" "cursor options = Some ''20''"
    using present [OF that(2)] that(1) twenty by simp
  from absent present ex1 ex2 show ?thesis
    by blast
qed

theorem timeline_page_witness:
  "cursor \<lparr>cursor = Some ''20''\<rparr> = Some ''20'' \<and> ''20'' \<noteq> [] \<and> list_all is_digit ''20'' \<and>
   length (replicate 25 example_entry) = 25 \<and>
   items (timeline_of (replicate 25 example_entry) settings_uri \<lparr>cursor = Some ''20''\<rparr>) =
     replicate 5 (toTimelineItem example_entry settings_uri) \<and>
   paging_cursor (timeline_of (replicate 25 example_entry) settings_uri \<lparr>cursor = Some ''20''\<rparr>) = None \<and>
   length (items (timeline_of (replicate 25 example_entry) settings_uri \<lparr>cursor = None\<rparr>)) = 10 \<and>
   paging_cursor (timeline_of (replicate 25 example_entry) settings_uri \<lparr>cursor = None\<rparr>) = Some ''10''"
proof -
  have h: "list_all is_digit ''20''"
    by (simp add: is_digit_def)
  have a: "items (timeline_of (replicate 25 example_entry) settings_uri \<lparr>cursor = Some ''20''\<rparr>) =
      map (\<lambda>e. toTimelineItem e settings_uri) (drop 20 (replicate 25 example_entry)) \<and>
    length (items (timeline_of (replicate 25 example_entry) settings_uri \<lparr>cursor = Some ''20''\<rparr>)) = 5 \<and>
    paging_cursor (timeline_of (replicate 25 example_entry) settings_uri \<lparr>cursor = Some ''20''\<rparr>) = None"
    using timeline_page [of "\<lparr>cursor = Some ''20''\<rparr>" "replicate 25 example_entry" settings_uri]
    by simp
  have b: "length (items (timeline_of (replicate 25 example_entry) settings_uri \<lparr>cursor = None\<rparr>)) = 10 \<and>
    paging_cursor (timeline_of (replicate 25 example_entry) settings_uri \<lparr>cursor = None\<rparr>) = Some ''10''"
    using timeline_page [of "\<lparr>cursor = None\<rparr>" "replicate 25 example_entry" settings_uri]
    by simp
  from a b h show ?thesis by simp
qed

subsection \<open>The creation time of a name\<close>











subsection \<open>The sync resolver\<close>

lemma JSON_parse_stored:
  "JSON_parse stored_sync_value = Inr (JObject [(''content'', JString stored_sync_content)])"
  "JSON_parse stored_sync_content = Inr (JObject [(''settings'', JString ''FOO'')])"
  "JSON_parse [] = Inl SyntaxError"
  by code_simp+

lemma Resolver_resolveContent_result:
  "Resolver_resolveContent rs r nm w =
     (case fs_readFile (files w) (path_join (userDataBackupFolder rs) [resource_text r, nm]) of
        Inl e \<Rightarrow> (Inr [], w) | Inr content \<Rightarrow> (Inr content, w))"
  by (simp add: Resolver_resolveContent_def)


text \<open>
  Claim C3, as stated, fails where it says that a read miss stays apart from the hard
  failures: the inherited read turns a read miss into the empty string, the empty
  string is not JSON, and the sync resolver ends with the syntax error of the first
  \<^verbatim>\<open>JSON.parse\<close>. Here the snapshot does not exist.
\<close>

theorem sync_read_miss_counterexample:
  "fs_readFile (files sync_world)
      (path_join (userDataBackupFolder sync_resolver) [resource_text Settings, ''20200101T000000.json'']) =
     Inl ENOENT \<and>
   fst (Resolver_resolveContent sync_resolver Settings ''20200101T000000.json'' sync_world) = Inr [] \<and>
   fst (Sync_resolveContent host_utc sync_resolver Settings ''20200101T000000.json'' sync_world) =
     Inl SyntaxError"
  by code_simp


text \<open>
  Claim C3, amended. On the stored value \<^verbatim>\<open>{"content":"{\"settings\":\"FOO\"}"}\<close> the
  sync resolver returns the string FOO. A failure of the first parse, and a failure of
  the parse of the text of \<open>content\<close>, is the result of the call. A read that fails is
  the empty string for the inherited \<open>resolveContent\<close>, which does not fail, and the
  syntax error of parsing the empty string for the sync resolver.
\<close>

theorem sync_resolveContent_unwraps:
  "(fs_readFile (files w) (path_join (userDataBackupFolder rs) [resource_text r, nm]) =
      Inr stored_sync_value \<longrightarrow>
      fst (Sync_resolveContent h rs r nm w) = Inr (Some (JString ''FOO''))) \<and>
   (\<forall>content e.
      fs_readFile (files w) (path_join (userDataBackupFolder rs) [resource_text r, nm]) = Inr content \<and>
      JSON_parse content = Inl e \<longrightarrow>
      fst (Sync_resolveContent h rs r nm w) = Inl e) \<and>
   (\<forall>content outer c e.
      fs_readFile (files w) (path_join (userDataBackupFolder rs) [resource_text r, nm]) = Inr content \<and>
      JSON_parse content = Inr outer \<and> destructure ''content'' outer = Inr c \<and>
      JSON_parse (ToString_opt h c) = Inl e \<longrightarrow>
      fst (Sync_resolveContent h rs r nm w) = Inl e) \<and>
   (\<forall>e.
      fs_readFile (files w) (path_join (userDataBackupFolder rs) [resource_text r, nm]) = Inl e \<longrightarrow>
      fst (Resolver_resolveContent rs r nm w) = Inr [] \<and>
      fst (Sync_resolveContent h rs r nm w) = Inl SyntaxError)"
proof -
  let ?p = "path_join (userDataBackupFolder rs) [resource_text r, nm]"
  have foo: "fst (Sync_resolveContent h rs r nm w) = Inr (Some (JString ''FOO''))"
    if "fs_readFile (files w) ?p = Inr stored_sync_value"
    using that
    by (simp add: Sync_resolveContent_def Resolver_resolveContent_result JSON_parse_stored
        destructure_def ToString_opt_def)
  have outer: "fst (Sync_resolveContent h rs r nm w) = Inl e"
    if "fs_readFile (files w) ?p = Inr content \<and> JSON_parse content = Inl e" for content e
    using that by (simp add: Sync_resolveContent_def Resolver_resolveContent_result)
  have inner: "fst (Sync_resolveContent h rs r nm w) = Inl e"
    if "fs_readFile (files w) ?p = Inr content \<and> JSON_parse content = Inr outer \<and>
      destructure ''content'' outer = Inr c \<and> JSON_parse (ToString_opt h c) = Inl e"
    for content outer c e
    using that by (simp add: Sync_resolveContent_def Resolver_resolveContent_result)
  have miss: "fst (Resolver_resolveContent rs r nm w) = Inr [] \<and>
      fst (Sync_resolveContent h rs r nm w) = Inl SyntaxError"
    if "fs_readFile (files w) ?p = Inl e" for e
    using that
    by (simp add: Sync_resolveContent_def Resolver_resolveContent_result JSON_parse_stored)
  from foo outer inner miss show ?thesis
    by blast
qed

theorem sync_resolveContent_unwraps_witness:
  "fs_readFile (files sync_world)
      (path_join (userDataBackupFolder sync_resolver) [resource_text Settings, ''20230615T143022.json'']) =
     Inr stored_sync_value \<and>
   fst (Sync_resolveContent host_utc sync_resolver Settings ''20230615T143022.json'' sync_world) =
     Inr (Some (JString ''FOO'')) \<and>
   JSON_parse ''{'' = Inl SyntaxError \<and>
   fst (Sync_resolveContent host_utc sync_resolver Settings ''20230616T080000.json'' sync_world) =
     Inl SyntaxError \<and>
   JSON_parse broken_inner_value = Inr (JObject [(''content'', JString ''{'')]) \<and>
   fst (Sync_resolveContent host_utc sync_resolver Settings ''20230617T080000.json'' sync_world) =
     Inl SyntaxError \<and>
   fst (Sync_resolveContent host_utc sync_resolver Settings ''20200101T000000.json'' sync_world) =
     Inl SyntaxError"
proof -
  have r1: "fs_readFile (files sync_world)
      (path_join (userDataBackupFolder sync_resolver) [resource_text Settings, ''20230615T143022.json'']) =
     Inr stored_sync_value"
    by code_simp
  have r2: "fs_readFile (files sync_world)
      (path_join (userDataBackupFolder sync_resolver) [resource_text Settings, ''20230616T080000.json'']) =
     Inr ''{''"
    by code_simp
  have r3: "fs_readFile (files sync_world)
      (path_join (userDataBackupFolder sync_resolver) [resource_text Settings, ''20230617T080000.json'']) =
     Inr broken_inner_value"
    by code_simp
  have r4: "fs_readFile (files sync_world)
      (path_join (userDataBackupFolder sync_resolver) [resource_text Settings, ''20200101T000000.json'']) =
     Inl ENOENT"
    by code_simp
  have p2: "JSON_parse ''{'' = Inl SyntaxError"
    by code_simp
  have p3: "JSON_parse broken_inner_value = Inr (JObject [(''content'', JString ''{'')])"
    "destructure ''content'' (JObject [(''content'', JString ''{'')]) = Inr (Some (JString ''{''))"
    "JSON_parse (ToString_opt host_utc (Some (JString ''{''))) = Inl SyntaxError"
    by code_simp+
  note t = sync_resolveContent_unwraps [of _ sync_resolver Settings _ host_utc]
  have a: "fst (Sync_resolveContent host_utc sync_resolver Settings ''20230615T143022.json'' sync_world) =
     Inr (Some (JString ''FOO''))"
    using t [of sync_world "''20230615T143022.json''"] r1 by blast
  have b: "fst (Sync_resolveContent host_utc sync_resolver Settings ''20230616T080000.json'' sync_world) =
     Inl SyntaxError"
    using t [of sync_world "''20230616T080000.json''"] r2 p2 by blast
  have c: "fst (Sync_resolveContent host_utc sync_resolver Settings ''20230617T080000.json'' sync_world) =
     Inl SyntaxError"
    using t [of sync_world "''20230617T080000.json''"] r3 p3 by blast
  have d: "fst (Sync_resolveContent host_utc sync_resolver Settings ''20200101T000000.json'' sync_world) =
     Inl SyntaxError"
    using t [of sync_world "''20200101T000000.json''"] r4 by blast
  from r1 a p2 b p3(1) c d show ?thesis
    by blast
qed

subsection \<open>Decimal digits of a number\<close>

lemma below_ten: "n < 10 \<Longrightarrow> n \<in> {0, 1, 2, 3, 4, 5, 6, 7, 8, 9 :: nat}"
  by auto

lemma of_char_digit_char: "n < 10 \<Longrightarrow> of_char (digit_char n) = 48 + n"
  using below_ten [of n] by (auto simp: digit_char_def)

lemma is_digit_digit_char: "n < 10 \<Longrightarrow> is_digit (digit_char n)"
  using below_ten [of n] by (auto simp: digit_char_def is_digit_def)

lemma digit_val_digit_char: "n < 10 \<Longrightarrow> digit_val (digit_char n) = n"
  by (simp add: digit_val_def of_char_digit_char)

lemma show_nat_digits: "list_all is_digit (show_nat n)"
proof (induction n rule: show_nat.induct)
  case (1 n)
  show ?case
  proof (cases "n < 10")
    case True
    then show ?thesis
      by (subst show_nat.simps) (simp add: is_digit_digit_char)
  next
    case False
    with 1 show ?thesis
      by (subst show_nat.simps) (simp add: is_digit_digit_char)
  qed
qed

lemma show_nat_nonempty: "show_nat n \<noteq> []"
  by (subst show_nat.simps) simp

lemma show_nat_one: "n < 10 \<Longrightarrow> show_nat n = [digit_char n]"
  by (subst show_nat.simps) simp

lemma show_nat_two: "10 \<le> n \<Longrightarrow> n < 100 \<Longrightarrow> show_nat n = two_digits n"
  by (subst show_nat.simps) (simp add: show_nat_one two_digits_def)

lemma show_nat_step: "10 \<le> n \<Longrightarrow> show_nat n = show_nat (n div 10) @ [digit_char (n mod 10)]"
  by (subst show_nat.simps) simp

lemma show_nat_length_four: "1000 \<le> n \<Longrightarrow> n < 10000 \<Longrightarrow> length (show_nat n) = 4"
proof -
  assume a: "1000 \<le> n" "n < 10000"
  have "length (show_nat n) = Suc (length (show_nat (n div 10)))"
    using a by (simp add: show_nat_step)
  also have "\<dots> = Suc (Suc (length (show_nat (n div 10 div 10))))"
    using a by (simp add: show_nat_step)
  also have "\<dots> = Suc (Suc (length (two_digits (n div 10 div 10))))"
    using a by (simp add: show_nat_two)
  finally show ?thesis
    by (simp add: two_digits_def)
qed

lemma two_digits_is_digit: "n < 100 \<Longrightarrow> list_all is_digit (two_digits n)"
  by (simp add: two_digits_def is_digit_digit_char)

lemma pad_loop_done: "l \<le> i \<Longrightarrow> pad_loop i l r ch = r"
  by (subst pad_loop.simps) simp

lemma pad_loop_once: "pad_loop (Suc 0) 2 r ch = r @ [ch]"
  by (subst pad_loop.simps) (simp add: pad_loop_done)

lemma digit_char_zero: "digit_char 0 = CHR ''0''"
  by (simp add: digit_char_def)

lemma pad_two: "n < 100 \<Longrightarrow> pad (int n) 2 ''0'' = two_digits n"
proof (cases "n < 10")
  case True
  then show ?thesis
    by (simp add: pad_def show_int_nat show_nat_one pad_loop_once two_digits_def digit_char_zero)
next
  case False
  assume "n < 100"
  with False show ?thesis
    by (simp add: pad_def show_int_nat show_nat_two pad_loop_done two_digits_def)
qed

lemma pad_two_succ: "n < 99 \<Longrightarrow> pad (int n + 1) 2 ''0'' = two_digits (n + 1)"
  using pad_two [of "n + 1"] by (simp add: add.commute)

subsection \<open>The name written by a backup\<close>

lemma is_digit_not_separator:
  assumes "is_digit c"
  shows "c \<noteq> CHR '':''" "c \<noteq> CHR ''.''" "c \<noteq> CHR ''/''" "c \<noteq> CHR ''Z''" "c \<noteq> CHR ''T''"
  using assms by (auto simp: is_digit_def)

lemma strip_separators_digits:
  "list_all is_digit ds \<Longrightarrow> strip_separators (ds @ rest) = ds @ strip_separators rest"
  by (induction ds) (auto simp: is_digit_not_special is_digit_not_separator)

lemma show_nat_length_le3: "n < 1000 \<Longrightarrow> length (show_nat n) \<le> 3"
proof -
  assume a: "n < 1000"
  consider "n < 10" | "10 \<le> n" "n < 100" | "100 \<le> n"
    by linarith
  then show ?thesis
  proof cases
    case 1
    then show ?thesis by (simp add: show_nat_one)
  next
    case 2
    then show ?thesis by (simp add: show_nat_two two_digits_def)
  next
    case 3
    then have "show_nat n = show_nat (n div 10) @ [digit_char (n mod 10)]"
      by (intro show_nat_step) simp
    moreover from 3 a have "show_nat (n div 10) = two_digits (n div 10)"
      by (intro show_nat_two) simp_all
    ultimately show ?thesis by (simp add: two_digits_def)
  qed
qed

lemma fraction_digits:
  assumes "ms < 1000"
  shows "\<exists>f. str_slice (toFixed3_of_thousandths ms) 2 5 = f \<and> f \<noteq> [] \<and> list_all is_digit f"
proof -
  let ?s = "show_nat ms"
  let ?f = "replicate (3 - length ?s) CHR ''0'' @ ?s"
  have len: "length ?f = 3"
    using show_nat_length_le3 [OF assms] by simp
  have "toFixed3_of_thousandths ms = [CHR ''0'', CHR ''.''] @ ?f"
    using assms by (simp add: toFixed3_of_thousandths_def show_nat_one digit_char_zero)
  then have "str_slice (toFixed3_of_thousandths ms) 2 5 = ?f"
    using len by (simp add: str_slice_def)
  moreover have "list_all is_digit ?f"
  proof -
    have "is_digit CHR ''0''"
      by (simp add: is_digit_def)
    then show ?thesis
      using show_nat_digits [of ms] by (auto simp: list_all_iff)
  qed
  moreover have "?f \<noteq> []"
    by (simp add: show_nat_nonempty)
  ultimately show ?thesis
    by blast
qed

lemma fraction_tail_digits:
  assumes "f \<noteq> []" "list_all is_digit f"
  shows "fraction_tail (f @ ''Z'')"
proof -
  have "\<And>x. x \<in> set f \<Longrightarrow> is_digit x"
    using assms(2) by (simp add: list_all_iff)
  then have "takeWhile is_digit (f @ ''Z'') = f" "dropWhile is_digit (f @ ''Z'') = ''Z''"
    by (simp_all add: takeWhile_append2 dropWhile_append2 is_digit_def)
  with assms(1) show ?thesis
    by (simp add: fraction_tail_def)
qed

lemma strip_year:
  "strip_separators (show_int y @ rest) = show_nat (nat \<bar>y\<bar>) @ strip_separators rest"
proof (cases "y < 0")
  case True
  then have "nat (- y) = nat \<bar>y\<bar>" by simp
  with True show ?thesis
    by (simp add: show_int_def strip_separators_digits show_nat_digits)
next
  case False
  then have "nat y = nat \<bar>y\<bar>" by simp
  with False show ?thesis
    by (simp add: show_int_def strip_separators_digits show_nat_digits)
qed

lemma backup_file_name_stamp:
  assumes "valid_date d"
  shows "backup_file_name d = local_stamp d @ ''.json''"
proof -
  from assms have r: "getMonth d < 99" "getDate d < 100" "getHours d < 100" "getMinutes d < 100"
    "getSeconds d < 100" "getMilliseconds d < 1000" "getMonth d + 1 < 100"
    by (auto simp: valid_date_def)
  from fraction_digits [OF r(6)] obtain f where
    f: "str_slice (toFixed3_of_thousandths (getMilliseconds d)) 2 5 = f" "f \<noteq> []" "list_all is_digit f"
    by blast
  have iso: "toLocalISOString d =
     show_int (getFullYear d) @ CHR ''-'' # two_digits (getMonth d + 1) @ CHR ''-'' #
     two_digits (getDate d) @ CHR ''T'' # two_digits (getHours d) @ CHR '':'' #
     two_digits (getMinutes d) @ CHR '':'' # two_digits (getSeconds d) @ CHR ''.'' # f @ ''Z''"
    using r by (simp add: toLocalISOString_def pad_two pad_two_succ f(1))
  have "strip_separators (toLocalISOString d) = local_stamp d"
    unfolding iso local_stamp_def
    using r fraction_tail_digits [OF f(2,3)]
    by (simp add: strip_year strip_separators_digits two_digits_is_digit)
  then show ?thesis
    by (simp add: backup_file_name_def)
qed

lemma stamp_matches:
  assumes "valid_date d" "1000 \<le> getFullYear d" "getFullYear d \<le> 9999"
  shows "matches_backup_name (local_stamp d @ ''.json'')" "matches_backup_name (local_stamp d)"
    "length (local_stamp d) = 15"
proof -
  let ?ds = "show_nat (nat \<bar>getFullYear d\<bar>) @ two_digits (getMonth d + 1) @ two_digits (getDate d)"
  let ?ts = "two_digits (getHours d) @ two_digits (getMinutes d) @ two_digits (getSeconds d)"
  from assms have r: "getMonth d + 1 < 100" "getDate d < 100" "getHours d < 100"
    "getMinutes d < 100" "getSeconds d < 100"
    by (auto simp: valid_date_def)
  have y: "length (show_nat (nat \<bar>getFullYear d\<bar>)) = 4"
    using assms(2,3) by (intro show_nat_length_four) auto
  have l: "length ?ds = 8" "length ?ts = 6"
    using y by (simp_all add: two_digits_def)
  have g: "list_all is_digit ?ds" "list_all is_digit ?ts"
    using r by (simp_all add: show_nat_digits two_digits_is_digit)
  have s: "local_stamp d = ?ds @ ''T'' @ ?ts"
    by (simp add: local_stamp_def)
  show "matches_backup_name (local_stamp d @ ''.json'')"
    unfolding matches_backup_name_iff using l g s by (metis append.assoc)
  show "matches_backup_name (local_stamp d)"
    unfolding matches_backup_name_iff using l g s by metis
  show "length (local_stamp d) = 15"
    unfolding s using l by simp
qed

subsection \<open>Paths\<close>

lemma split_on_plain: "sep \<notin> set c \<Longrightarrow> split_on sep c = [c]"
  by (induction c) auto

lemma path_join_Cons:
  "plain_component c \<Longrightarrow> path_join p (c # cs) = path_join (p @ [c]) cs"
  by (simp add: path_join_def plain_component_def split_on_plain path_step_def)

lemma path_join_Nil: "path_join p [] = p"
  by (simp add: path_join_def)

lemma plain_resource_text: "plain_component (resource_text r)"
  by (cases r) (simp_all add: plain_component_def)

lemma plain_resource_json: "plain_component (resource_text r @ ''.json'')"
  by (cases r) (simp_all add: plain_component_def)

lemma no_slash_stamp:
  assumes "valid_date d"
  shows "CHR ''/'' \<notin> set (local_stamp d)"
proof -
  from assms have r: "getMonth d + 1 < 100" "getDate d < 100" "getHours d < 100"
    "getMinutes d < 100" "getSeconds d < 100"
    by (auto simp: valid_date_def)
  have "\<not> is_digit CHR ''/''"
    by (simp add: is_digit_def)
  then have "CHR ''/'' \<notin> set s" if "list_all is_digit s" for s
    using that by (auto simp: list_all_iff)
  from this [OF show_nat_digits] this [OF two_digits_is_digit] r show ?thesis
    by (simp add: local_stamp_def)
qed

lemma plain_backup_file_name:
  assumes "valid_date d"
  shows "plain_component (backup_file_name d)"
proof -
  have "length (local_stamp d @ ''.json'') \<ge> 5"
    by simp
  then have "local_stamp d @ ''.json'' \<noteq> []" "local_stamp d @ ''.json'' \<noteq> ''.''"
    "local_stamp d @ ''.json'' \<noteq> ''..''"
    by (auto dest: arg_cong [where f = length])
  then show ?thesis
    using no_slash_stamp [OF assms]
    by (simp add: plain_component_def backup_file_name_stamp [OF assms])
qed

lemma backup_paths:
  assumes "valid_date now"
  shows "path_join (userDataPath svc) [resource_text r @ ''.json''] =
      userDataPath svc @ [resource_text r @ ''.json'']"
    and "path_join (userDataBackupFolder svc) [resource_text r] =
      userDataBackupFolder svc @ [resource_text r]"
    and "path_join (userDataBackupFolder svc @ [resource_text r]) [backup_file_name now] =
      userDataBackupFolder svc @ [resource_text r, backup_file_name now]"
  by (simp_all add: path_join_Cons path_join_Nil plain_resource_text plain_resource_json
      plain_backup_file_name [OF assms])

subsection \<open>Creating directories and writing a file\<close>

lemma mkdirs_files:
  "mkdirs m parent cs = Inr m' \<Longrightarrow> m' p = Some (File b) \<longleftrightarrow> m p = Some (File b)"
proof (induction cs arbitrary: m parent)
  case Nil
  then show ?case by simp
next
  case (Cons c cs)
  show ?case
  proof (cases "m (parent @ [c])")
    case None
    with Cons.prems obtain names where
      d: "m parent = Some (Dir names)" and
      rec: "mkdirs (m(parent \<mapsto> Dir (add_name c names), parent @ [c] \<mapsto> Dir [])) (parent @ [c]) cs = Inr m'"
      by (auto split: option.splits node.splits)
    from Cons.IH [OF rec] None d show ?thesis
      by (auto split: if_splits)
  next
    case (Some nd)
    with Cons.prems obtain names where
      d: "nd = Dir names" and rec: "mkdirs m (parent @ [c]) cs = Inr m'"
      by (cases nd) auto
    from Cons.IH [OF rec] show ?thesis .
  qed
qed

lemma mkdirs_elsewhere:
  "mkdirs m parent cs = Inr m' \<Longrightarrow> (\<And>k. p \<noteq> parent @ take k cs) \<Longrightarrow> m' p = m p"
proof (induction cs arbitrary: m parent)
  case Nil
  then show ?case by simp
next
  case (Cons c cs)
  have p0: "p \<noteq> parent"
    using Cons.prems(2) [of 0] by simp
  have pk: "p \<noteq> (parent @ [c]) @ take k cs" for k
    using Cons.prems(2) [of "Suc k"] by simp
  have p1: "p \<noteq> parent @ [c]"
    using pk [of 0] by simp
  show ?case
  proof (cases "m (parent @ [c])")
    case None
    with Cons.prems(1) obtain names where
      d: "m parent = Some (Dir names)" and
      rec: "mkdirs (m(parent \<mapsto> Dir (add_name c names), parent @ [c] \<mapsto> Dir [])) (parent @ [c]) cs = Inr m'"
      by (auto split: option.splits node.splits)
    from Cons.IH [OF rec pk] p0 p1 show ?thesis
      by simp
  next
    case (Some nd)
    with Cons.prems(1) obtain names where
      d: "nd = Dir names" and rec: "mkdirs m (parent @ [c]) cs = Inr m'"
      by (cases nd) auto
    from Cons.IH [OF rec pk] show ?thesis .
  qed
qed

lemma fs_mkdir_recursive_result:
  assumes "fs_mkdir_recursive fs p = Inr fs1"
  shows "fault fs1 = fault fs"
    and "nodes fs1 q = Some (File b) \<longleftrightarrow> nodes fs q = Some (File b)"
    and "(\<And>k. q \<noteq> take k p) \<Longrightarrow> nodes fs1 q = nodes fs q"
proof -
  from assms obtain m where m: "mkdirs (nodes fs) [] p = Inr m" and fs1: "fs1 = fs\<lparr>nodes := m\<rparr>"
    by (auto simp: fs_mkdir_recursive_def split: option.splits sum.splits)
  show "fault fs1 = fault fs"
    by (simp add: fs1)
  show "nodes fs1 q = Some (File b) \<longleftrightarrow> nodes fs q = Some (File b)"
    using mkdirs_files [OF m] by (simp add: fs1)
  show "nodes fs1 q = nodes fs q" if "\<And>k. q \<noteq> take k p"
    using mkdirs_elsewhere [OF m, of q] that by (simp add: fs1)
qed

lemma fs_writeFile_result:
  assumes "fs_writeFile fs p b = Inr fs2"
  shows "\<exists>names. nodes fs (butlast p) = Some (Dir names) \<and>
           nodes fs2 = (nodes fs)(butlast p \<mapsto> Dir (add_name (last p) names), p \<mapsto> File b)"
    and "fault fs2 = fault fs"
  using assms
  by (auto simp: fs_writeFile_def split: option.splits node.splits if_splits)

lemma fs_readFile_same:
  assumes "fault fs1 = fault fs" "\<And>b. nodes fs1 q = Some (File b) \<longleftrightarrow> nodes fs q = Some (File b)"
    "fs_readFile fs1 q = Inr content"
  shows "fs_readFile fs q = Inr content"
proof -
  from assms(3) have "fault fs1 ReadFile q = None" "nodes fs1 q = Some (File content)"
    by (auto simp: fs_readFile_def split: option.splits node.splits)
  with assms(1) assms(2) [of content] have "fault fs ReadFile q = None" "nodes fs q = Some (File content)"
    by simp_all
  then show ?thesis
    by (simp add: fs_readFile_def)
qed

subsection \<open>What a backup does\<close>

lemma backup_unfolded:
  assumes "valid_date now"
  shows "backup svc now r w =
     (case (if \<not> fs_exists (files w) (userDataBackupFolder svc @ [resource_text r])
            then fs_mkdir_recursive (files w) (userDataBackupFolder svc @ [resource_text r])
            else Inr (files w)) of
        Inl e \<Rightarrow> (Inl (IOError e), w)
      | Inr fs1 \<Rightarrow>
          (case fs_readFile fs1 (userDataPath svc @ [resource_text r @ ''.json'']) of
             Inl e \<Rightarrow> (Inl (IOError e), w\<lparr>files := fs1\<rparr>)
           | Inr content \<Rightarrow>
               (case fs_writeFile fs1
                       (userDataBackupFolder svc @ [resource_text r, backup_file_name now]) content of
                  Inl e \<Rightarrow> (Inl (IOError e), w\<lparr>files := fs1\<rparr>)
                | Inr fs2 \<Rightarrow> (Inr (), \<lparr>files = fs2, fired = fired w @ [r]\<rparr>))))"
  unfolding backup_def Let_def backup_paths [OF assms] ..

lemma backup_success:
  assumes v: "valid_date now" and ok: "fst (backup svc now r w) = Inr ()"
  obtains fs1 content names where
    "fs1 = files w \<or> fs_mkdir_recursive (files w) (userDataBackupFolder svc @ [resource_text r]) = Inr fs1"
    "fs_readFile fs1 (userDataPath svc @ [resource_text r @ ''.json'']) = Inr content"
    "nodes fs1 (userDataBackupFolder svc @ [resource_text r]) = Some (Dir names)"
    "nodes (files (snd (backup svc now r w))) =
       (nodes fs1)
         (userDataBackupFolder svc @ [resource_text r] \<mapsto> Dir (add_name (backup_file_name now) names),
          userDataBackupFolder svc @ [resource_text r, backup_file_name now] \<mapsto> File content)"
    "fault (files (snd (backup svc now r w))) = fault fs1"
    "fired (snd (backup svc now r w)) = fired w @ [r]"
proof -
  let ?folder = "userDataBackupFolder svc @ [resource_text r]"
  let ?file = "userDataBackupFolder svc @ [resource_text r, backup_file_name now]"
  let ?live = "userDataPath svc @ [resource_text r @ ''.json'']"
  let ?made = "if \<not> fs_exists (files w) ?folder then fs_mkdir_recursive (files w) ?folder
               else Inr (files w)"
  from ok obtain fs1 where made: "?made = Inr fs1"
    unfolding backup_unfolded [OF v] by (cases ?made) auto
  from ok made obtain content where rd: "fs_readFile fs1 ?live = Inr content"
    unfolding backup_unfolded [OF v] by (cases "fs_readFile fs1 ?live") auto
  from ok made rd obtain fs2 where wr: "fs_writeFile fs1 ?file content = Inr fs2"
    unfolding backup_unfolded [OF v] by (cases "fs_writeFile fs1 ?file content") auto
  have res: "snd (backup svc now r w) = \<lparr>files = fs2, fired = fired w @ [r]\<rparr>"
    unfolding backup_unfolded [OF v] by (simp add: made rd wr)
  have bl: "butlast ?file = ?folder" "last ?file = backup_file_name now"
    by (simp_all add: butlast_append)
  from fs_writeFile_result [OF wr] obtain names where
    d: "nodes fs1 ?folder = Some (Dir names)" and
    n2: "nodes fs2 = (nodes fs1)(?folder \<mapsto> Dir (add_name (backup_file_name now) names),
          ?file \<mapsto> File content)" and
    f2: "fault fs2 = fault fs1"
    unfolding bl by blast
  have one: "fs1 = files w \<or> fs_mkdir_recursive (files w) ?folder = Inr fs1"
    using made by (auto split: if_splits)
  show thesis
    by (rule that [OF one rd d]) (simp_all add: res n2 f2)
qed

lemma backup_failure_fires_nothing:
  assumes "valid_date now" "fst (backup svc now r w) = Inl e"
  shows "fired (snd (backup svc now r w)) = fired w"
  using assms(2) unfolding backup_unfolded [OF assms(1)]
  by (auto split: sum.splits if_splits)

subsection \<open>The two variants of the core\<close>

text \<open>
  The methods of \<^verbatim>\<open>UserDataBackupService\<close> have the same text in \<^verbatim>\<open>extension.ts\<close> and
  in the first variant of the other file, so one definition models both; the two
  differ in their constructors only. The resolver classes are modelled from their own
  text.

  Claim C10, as stated, fails for \<open>backup\<close>: with the same backup folder, the same clock
  reading and the same disk, the service of \<^verbatim>\<open>extension.ts\<close> copies the settings of the
  Insiders build, which \<^verbatim>\<open>getUserDataPath\<close> names, and the changes service copies the
  settings two levels above the global storage folder. On a host where these are two
  files, the snapshots hold different bytes.
\<close>

theorem variants_differ_counterexample:
  "new_UserDataBackupService_ext stable_env stable_storage = Inr insiders_service \<and>
   userDataBackupFolder insiders_service =
     userDataBackupFolder (new_UserDataChangesBackupService stable_storage) \<and>
   fst (backup insiders_service clock_reading Settings two_editors_world) = Inr () \<and>
   fst (Changes_backup (new_UserDataChangesBackupService stable_storage) clock_reading Settings
          two_editors_world) = Inr () \<and>
   nodes (files (snd (backup insiders_service clock_reading Settings two_editors_world)))
     [''home'', ''.config'', ''Code'', ''User'', ''globalStorage'', ''ext'', ''userdata-backup'',
      ''settings'', ''20230616T080509.json''] = Some (File ''insiders'') \<and>
   nodes (files (snd (Changes_backup (new_UserDataChangesBackupService stable_storage) clock_reading
                        Settings two_editors_world)))
     [''home'', ''.config'', ''Code'', ''User'', ''globalStorage'', ''ext'', ''userdata-backup'',
      ''settings'', ''20230616T080509.json''] = Some (File ''stable'')"
  by code_simp


text \<open>
  Claim C10, amended. When the resolver and the service have the same backup folder,
  their listings have the same names, creation times and resources in the same order
  (the entries of the resolver carry a uri on top), neither listing changes the world,
  and their \<open>resolveContent\<close> agree; when they also have the same user data folder,
  their backups agree in result and effect. The changes service and the service of the
  first variant, made from the same global storage folder, have both folders in common;
  the service of \<^verbatim>\<open>extension.ts\<close> has the backup folder in common with them.
\<close>

theorem variants_agree:
  "(userDataBackupFolder rs = userDataBackupFolder svc \<longrightarrow>
      (\<exists>es. fst (Resolver_getAllEntries h rs r w) = Inr es \<and>
            fst (getAllEntries h svc r w) = Inr (map without_uri es)) \<and>
      snd (Resolver_getAllEntries h rs r w) = snd (getAllEntries h svc r w) \<and>
      Resolver_resolveContent rs r nm w = resolveContent svc r nm w) \<and>
   (userDataBackupFolder rs = userDataBackupFolder svc \<and> userDataPath rs = userDataPath svc \<longrightarrow>
      Changes_backup rs now r w = backup svc now r w) \<and>
   userDataBackupFolder (new_UserDataChangesBackupService g) =
     userDataBackupFolder (new_UserDataBackupService g) \<and>
   userDataPath (new_UserDataChangesBackupService g) = userDataPath (new_UserDataBackupService g) \<and>
   (\<forall>s. new_UserDataBackupService_ext pe g = Inr s \<longrightarrow>
      userDataBackupFolder s = userDataBackupFolder (new_UserDataChangesBackupService g))"
proof -
  have listing: "(\<exists>es. fst (Resolver_getAllEntries h rs r w) = Inr es \<and>
            fst (getAllEntries h svc r w) = Inr (map without_uri es)) \<and>
      snd (Resolver_getAllEntries h rs r w) = snd (getAllEntries h svc r w)"
    if "userDataBackupFolder rs = userDataBackupFolder svc"
  proof (cases "fs_readdir (files w) (path_join (userDataBackupFolder svc) [resource_text r])")
    case (Inl e)
    with that show ?thesis
      by (simp add: Resolver_getAllEntries_def getAllEntries_def)
  next
    case (Inr children)
    with that show ?thesis
      by (simp add: Resolver_getAllEntries_def getAllEntries_def without_uri_def)
  qed
  have reading: "Resolver_resolveContent rs r nm w = resolveContent svc r nm w"
    if "userDataBackupFolder rs = userDataBackupFolder svc"
    using that by (simp add: Resolver_resolveContent_def resolveContent_def)
  have writing: "Changes_backup rs now r w = backup svc now r w"
    if "userDataBackupFolder rs = userDataBackupFolder svc \<and> userDataPath rs = userDataPath svc"
    using that by (simp add: Changes_backup_def backup_def)
  have made: "userDataBackupFolder (new_UserDataChangesBackupService g) =
      userDataBackupFolder (new_UserDataBackupService g)"
    "userDataPath (new_UserDataChangesBackupService g) = userDataPath (new_UserDataBackupService g)"
    by (simp_all add: new_UserDataChangesBackupService_def new_UserDataBackupService_def)
  have ext: "userDataBackupFolder s = userDataBackupFolder (new_UserDataChangesBackupService g)"
    if "new_UserDataBackupService_ext pe g = Inr s" for s
    using that
    by (auto simp: new_UserDataBackupService_ext_def new_UserDataChangesBackupService_def
        split: sum.splits)
  from listing reading writing made ext show ?thesis
    by blast
qed

theorem variants_agree_witness:
  "userDataBackupFolder (new_UserDataChangesBackupService [''home'', ''User'', ''globalStorage'', ''ext'']) =
     userDataBackupFolder example_service \<and>
   userDataPath (new_UserDataChangesBackupService [''home'', ''User'', ''globalStorage'', ''ext'']) =
     userDataPath example_service \<and>
   map name
     (case fst (Resolver_getAllEntries host_utc
                  (new_UserDataChangesBackupService [''home'', ''User'', ''globalStorage'', ''ext''])
                  Settings history_world) of Inl e \<Rightarrow> [] | Inr es \<Rightarrow> map without_uri es) =
     [''20230615T143022.json'', ''20230614T090000''] \<and>
   fst (resolveContent example_service Settings ''20230614T090000'' history_world) = Inr ''{ }'' \<and>
   fst (Resolver_resolveContent
          (new_UserDataChangesBackupService [''home'', ''User'', ''globalStorage'', ''ext''])
          Settings ''20230614T090000'' history_world) = Inr ''{ }'' \<and>
   fst (Changes_backup
          (new_UserDataChangesBackupService [''home'', ''User'', ''globalStorage'', ''ext''])
          clock_reading Settings history_world) = Inr ()"
proof -
  let ?rs = "new_UserDataChangesBackupService [''home'', ''User'', ''globalStorage'', ''ext'']"
  have f: "userDataBackupFolder ?rs = userDataBackupFolder example_service"
    "userDataPath ?rs = userDataPath example_service"
    by code_simp+
  have l: "fst (getAllEntries host_utc example_service Settings history_world) =
     Inr [\<lparr>resource = Settings, name = ''20230615T143022.json'', created = Some 1686839422000\<rparr>,
          \<lparr>resource = Settings, name = ''20230614T090000'', created = Some 1686733200000\<rparr>]"
    by code_simp
  have c: "fst (resolveContent example_service Settings ''20230614T090000'' history_world) = Inr ''{ }''"
    by code_simp
  have b: "fst (backup example_service clock_reading Settings history_world) = Inr ()"
    by code_simp
  note t = variants_agree [of ?rs example_service host_utc Settings history_world
      "''20230614T090000''" clock_reading]
  from t f obtain es where
    es: "fst (Resolver_getAllEntries host_utc ?rs Settings history_world) = Inr es"
      "fst (getAllEntries host_utc example_service Settings history_world) = Inr (map without_uri es)"
    by blast
  from t f have
    rc: "Resolver_resolveContent ?rs Settings ''20230614T090000'' history_world =
      resolveContent example_service Settings ''20230614T090000'' history_world" and
    bk: "Changes_backup ?rs clock_reading Settings history_world =
      backup example_service clock_reading Settings history_world"
    by blast+
  from es l have m: "map without_uri es =
     [\<lparr>resource = Settings, name = ''20230615T143022.json'', created = Some 1686839422000\<rparr>,
      \<lparr>resource = Settings, name = ''20230614T090000'', created = Some 1686733200000\<rparr>]"
    by simp
  have n: "map name
     (case fst (Resolver_getAllEntries host_utc ?rs Settings history_world) of
        Inl e \<Rightarrow> [] | Inr es \<Rightarrow> map without_uri es) =
     [''20230615T143022.json'', ''20230614T090000'']"
    unfolding es(1) sum.case m by simp
  from f n c rc bk b show ?thesis
    by simp
qed

subsection \<open>The order of digit strings\<close>

lemma dec_foldl: "foldl (\<lambda>a c. 10 * a + digit_val c) a s = a * 10 ^ length s + dec s"
proof (induction s arbitrary: a)
  case Nil
  then show ?case by (simp add: dec_def)
next
  case (Cons c s)
  have "dec (c # s) = foldl (\<lambda>a c. 10 * a + digit_val c) (digit_val c) s"
    by (simp add: dec_def)
  also have "\<dots> = digit_val c * 10 ^ length s + dec s"
    by (rule Cons.IH)
  finally have d: "dec (c # s) = digit_val c * 10 ^ length s + dec s" .
  have "foldl (\<lambda>a c. 10 * a + digit_val c) a (c # s) =
      foldl (\<lambda>a c. 10 * a + digit_val c) (10 * a + digit_val c) s"
    by simp
  also have "\<dots> = (10 * a + digit_val c) * 10 ^ length s + dec s"
    by (rule Cons.IH)
  finally show ?case
    by (simp add: d algebra_simps)
qed

lemma dec_Cons: "dec (c # s) = digit_val c * 10 ^ length s + dec s"
  using dec_foldl [of "digit_val c" s] by (simp add: dec_def)

lemma dec_append: "dec (xs @ ys) = dec xs * 10 ^ length ys + dec ys"
  using dec_foldl [of "dec xs" ys] by (simp add: dec_def)

lemma dec_less: "list_all is_digit s \<Longrightarrow> dec s < 10 ^ length s"
proof (induction s)
  case Nil
  then show ?case by (simp add: dec_def)
next
  case (Cons c s)
  then have "digit_val c \<le> 9" "dec s < 10 ^ length s"
    using digit_val_less [of c] by auto
  then have "digit_val c * 10 ^ length s + dec s < 9 * 10 ^ length s + 10 ^ length s"
    by (intro add_le_less_mono mult_right_mono) auto
  then show ?case
    by (simp add: dec_Cons)
qed

lemma digit_less_iff:
  assumes "is_digit a" "is_digit b"
  shows "a < b \<longleftrightarrow> digit_val a < digit_val b" and "a = b \<longleftrightarrow> digit_val a = digit_val b"
proof -
  from assms have r: "48 \<le> (of_char a :: nat)" "48 \<le> (of_char b :: nat)"
    by (auto dest: is_digit_code)
  then show "a < b \<longleftrightarrow> digit_val a < digit_val b"
    by (auto simp: less_char_def digit_val_def)
  have "a = b \<longleftrightarrow> (of_char a :: nat) = of_char b"
    by auto
  moreover from r have "(of_char a :: nat) = of_char b \<longleftrightarrow> digit_val a = digit_val b"
    unfolding digit_val_def by linarith
  ultimately show "a = b \<longleftrightarrow> digit_val a = digit_val b"
    by simp
qed

lemma digits_less_iff:
  assumes "length xs = length ys" "list_all is_digit xs" "list_all is_digit ys"
  shows "xs < ys \<longleftrightarrow> dec xs < dec ys"
  using assms
proof (induction xs ys rule: list_induct2)
  case Nil
  then show ?case by (simp add: dec_def)
next
  case (Cons x xs y ys)
  then have dx: "is_digit x" "is_digit y" and ih: "xs < ys \<longleftrightarrow> dec xs < dec ys"
    and bx: "dec xs < 10 ^ length ys" "dec ys < 10 ^ length ys"
    using dec_less [of xs] dec_less [of ys] by auto
  let ?p = "(10::nat) ^ length ys"
  have len: "length xs = length ys"
    by (rule Cons.hyps)
  show ?case
  proof (cases "digit_val x = digit_val y")
    case True
    with dx have "x = y" by (simp add: digit_less_iff)
    with True ih len show ?thesis
      by (simp add: dec_Cons)
  next
    case False
    with dx have ne: "x \<noteq> y" by (simp add: digit_less_iff)
    show ?thesis
    proof (cases "digit_val x < digit_val y")
      case True
      then have "digit_val x * ?p + ?p \<le> digit_val y * ?p"
        by (metis Suc_leI mult_Suc mult_le_mono1 add.commute)
      with bx have "digit_val x * ?p + dec xs < digit_val y * ?p + dec ys"
        by linarith
      with True dx ne len show ?thesis
        by (simp add: dec_Cons digit_less_iff)
    next
      case gt: False
      with False have "digit_val y < digit_val x"
        by simp
      then have "digit_val y * ?p + ?p \<le> digit_val x * ?p"
        by (metis Suc_leI mult_Suc mult_le_mono1 add.commute)
      with bx have "\<not> digit_val x * ?p + dec xs < digit_val y * ?p + dec ys"
        by linarith
      with gt dx ne len show ?thesis
        by (simp add: dec_Cons digit_less_iff)
    qed
  qed
qed

lemma digits_eq_iff:
  assumes "length xs = length ys" "list_all is_digit xs" "list_all is_digit ys"
  shows "xs = ys \<longleftrightarrow> dec xs = dec ys"
proof
  assume "xs = ys"
  then show "dec xs = dec ys" by simp
next
  assume e: "dec xs = dec ys"
  have "\<not> xs < ys" "\<not> ys < xs"
    using assms e by (simp_all add: digits_less_iff)
  then show "xs = ys"
    by (meson linorder_neqE)
qed

lemma digits_le_iff:
  assumes "length xs = length ys" "list_all is_digit xs" "list_all is_digit ys"
  shows "xs \<le> ys \<longleftrightarrow> dec xs \<le> dec ys"
  using digits_less_iff [OF assms] digits_eq_iff [OF assms]
  by (auto simp: le_less)

lemma append_less_iff:
  fixes a1 a2 b1 b2 :: string
  assumes "length a1 = length a2"
  shows "a1 @ b1 < a2 @ b2 \<longleftrightarrow> a1 < a2 \<or> (a1 = a2 \<and> b1 < b2)"
  using assms by (induction a1 a2 rule: list_induct2) auto

lemma append_le_iff:
  fixes a1 a2 b1 b2 :: string
  assumes "length a1 = length a2"
  shows "a1 @ b1 \<le> a2 @ b2 \<longleftrightarrow> a1 < a2 \<or> (a1 = a2 \<and> b1 \<le> b2)"
  using assms by (induction a1 a2 rule: list_induct2) auto

lemma le_append_self: "(a :: string) \<le> a @ b"
  by (induction a) auto

lemma dec_show_nat: "dec (show_nat n) = n"
proof (induction n rule: show_nat.induct)
  case (1 n)
  show ?case
  proof (cases "n < 10")
    case True
    then show ?thesis
      by (simp add: show_nat_one dec_Cons digit_val_digit_char dec_def)
  next
    case False
    then have "show_nat n = show_nat (n div 10) @ [digit_char (n mod 10)]"
      by (intro show_nat_step) simp
    moreover have "dec (show_nat (n div 10)) = n div 10"
      using 1 False by simp
    moreover have "dec [digit_char (n mod 10)] = n mod 10"
      by (simp add: dec_Cons digit_val_digit_char dec_def)
    ultimately show ?thesis
      by (simp add: dec_append)
  qed
qed

lemma dec_two_digits: "n < 100 \<Longrightarrow> dec (two_digits n) = n"
  by (simp add: two_digits_def dec_Cons digit_val_digit_char dec_def)

lemma length_two_digits: "length (two_digits n) = 2"
  by (simp add: two_digits_def)

lemma two_digits_order:
  assumes "a < 100" "b < 100"
  shows "two_digits a < two_digits b \<longleftrightarrow> a < b" and "two_digits a = two_digits b \<longleftrightarrow> a = b"
    and "two_digits a \<le> two_digits b \<longleftrightarrow> a \<le> b"
  using assms
    digits_less_iff [of "two_digits a" "two_digits b"]
    digits_eq_iff [of "two_digits a" "two_digits b"]
    digits_le_iff [of "two_digits a" "two_digits b"]
  by (simp_all add: length_two_digits two_digits_is_digit dec_two_digits)

lemma four_digits_order:
  assumes "1000 \<le> a" "a < 10000" "1000 \<le> b" "b < 10000"
  shows "show_nat a < show_nat b \<longleftrightarrow> a < b" and "show_nat a = show_nat b \<longleftrightarrow> a = b"
  using assms
    digits_less_iff [of "show_nat a" "show_nat b"]
    digits_eq_iff [of "show_nat a" "show_nat b"]
  by (simp_all add: show_nat_length_four show_nat_digits dec_show_nat)

lemma local_stamp_le_iff:
  assumes "valid_date a" "1000 \<le> getFullYear a" "getFullYear a \<le> 9999"
    and "valid_date b" "1000 \<le> getFullYear b" "getFullYear b \<le> 9999"
  shows "local_stamp a \<le> local_stamp b \<longleftrightarrow> not_after a b"
proof -
  let ?ya = "nat \<bar>getFullYear a\<bar>" and ?yb = "nat \<bar>getFullYear b\<bar>"
  from assms have ra: "getMonth a + 1 < 100" "getDate a < 100" "getHours a < 100"
    "getMinutes a < 100" "getSeconds a < 100"
    and rb: "getMonth b + 1 < 100" "getDate b < 100" "getHours b < 100"
    "getMinutes b < 100" "getSeconds b < 100"
    by (auto simp: valid_date_def)
  from assms have y: "1000 \<le> ?ya" "?ya < 10000" "1000 \<le> ?yb" "?yb < 10000"
    by auto
  have yl: "length (show_nat ?ya) = length (show_nat ?yb)"
    using y by (simp add: show_nat_length_four)
  have l2: "length (two_digits m) = length (two_digits n)" for m n
    by (simp add: length_two_digits)
  have yo: "show_nat ?ya < show_nat ?yb \<longleftrightarrow> getFullYear a < getFullYear b"
    "show_nat ?ya = show_nat ?yb \<longleftrightarrow> getFullYear a = getFullYear b"
    using four_digits_order [OF y] assms(2,5) by auto
  have t: "length ''T'' = length ''T''"
    by simp
  have "local_stamp a \<le> local_stamp b \<longleftrightarrow>
     (show_nat ?ya < show_nat ?yb \<or> (show_nat ?ya = show_nat ?yb \<and>
      (two_digits (getMonth a + 1) < two_digits (getMonth b + 1) \<or>
       (two_digits (getMonth a + 1) = two_digits (getMonth b + 1) \<and>
        (two_digits (getDate a) < two_digits (getDate b) \<or>
         (two_digits (getDate a) = two_digits (getDate b) \<and>
          (two_digits (getHours a) < two_digits (getHours b) \<or>
           (two_digits (getHours a) = two_digits (getHours b) \<and>
            (two_digits (getMinutes a) < two_digits (getMinutes b) \<or>
             (two_digits (getMinutes a) = two_digits (getMinutes b) \<and>
              two_digits (getSeconds a) \<le> two_digits (getSeconds b)))))))))))"
    unfolding local_stamp_def
    by (simp only: append_le_iff [OF yl] append_le_iff [OF l2] append_le_iff [OF t]
        append_le_iff [OF l2, where ?b1.0 = "[]" and ?b2.0 = "[]", simplified])
       simp
  then show ?thesis
    unfolding not_after_def yo
    using ra rb by (simp add: two_digits_order)
qed

subsection \<open>The newest name comes first\<close>

lemma newest_first:
  fixes m :: string
  assumes "m \<in> set xs" "\<And>x. x \<in> set xs \<Longrightarrow> x \<le> m"
  shows "\<exists>rest. rev (sort xs) = m # rest"
proof -
  have s: "sorted_wrt (\<lambda>a b. b \<le> a) (rev (sort xs))"
    using sorted_sort [of xs] by (simp add: sorted_wrt_rev)
  have e: "set (rev (sort xs)) = set xs"
    by simp
  with assms(1) obtain z zs where z: "rev (sort xs) = z # zs"
    by (cases "rev (sort xs)") auto
  from s have below: "\<And>x. x \<in> set zs \<Longrightarrow> x \<le> z"
    unfolding z by simp
  from e z have "z \<in> set xs" "set xs = insert z (set zs)"
    by auto
  with assms below have "z \<le> m" "m \<le> z"
    by auto
  then have "z = m"
    by simp
  with z show ?thesis
    by simp
qed

lemma mkdirs_target:
  "mkdirs m parent cs = Inr m' \<Longrightarrow> cs \<noteq> [] \<Longrightarrow>
     m' (parent @ cs) = (case m (parent @ cs) of None \<Rightarrow> Some (Dir []) | Some x \<Rightarrow> Some x)"
proof (induction cs arbitrary: m parent)
  case Nil
  then show ?case by simp
next
  case (Cons c cs)
  show ?case
  proof (cases "m (parent @ [c])")
    case None
    with Cons.prems(1) obtain names where
      d: "m parent = Some (Dir names)" and
      rec: "mkdirs (m(parent \<mapsto> Dir (add_name c names), parent @ [c] \<mapsto> Dir [])) (parent @ [c]) cs = Inr m'"
      by (auto split: option.splits node.splits)
    show ?thesis
    proof (cases "cs = []")
      case True
      with rec None show ?thesis by auto
    next
      case False
      from Cons.IH [OF rec False] False show ?thesis
        by simp
    qed
  next
    case (Some nd)
    with Cons.prems(1) obtain names where
      d: "nd = Dir names" and rec: "mkdirs m (parent @ [c]) cs = Inr m'"
      by (cases nd) auto
    show ?thesis
    proof (cases "cs = []")
      case True
      with rec Some show ?thesis by auto
    next
      case False
      from Cons.IH [OF rec False] show ?thesis
        by simp
    qed
  qed
qed

lemma fs_mkdir_recursive_target:
  assumes "fs_mkdir_recursive fs p = Inr fs1" "p \<noteq> []" "nodes fs1 p = Some (Dir names)"
  shows "nodes fs p = Some (Dir names) \<or> names = []"
proof -
  from assms(1) obtain m where m: "mkdirs (nodes fs) [] p = Inr m" and fs1: "fs1 = fs\<lparr>nodes := m\<rparr>"
    by (auto simp: fs_mkdir_recursive_def split: option.splits sum.splits)
  from mkdirs_target [OF m assms(2)] assms(3) show ?thesis
    by (auto simp: fs1 split: option.splits)
qed

lemma earlier_name_le:
  assumes "valid_date now" "1000 \<le> getFullYear now" "getFullYear now \<le> 9999"
    and "valid_date d" "1000 \<le> getFullYear d" "getFullYear d \<le> 9999"
    and "not_after d now" "n = local_stamp d \<or> n = local_stamp d @ ''.json''"
  shows "n \<le> local_stamp now @ ''.json''"
proof -
  have le: "local_stamp d \<le> local_stamp now"
    using assms by (simp add: local_stamp_le_iff)
  have len: "length (local_stamp d) = length (local_stamp now)"
    using stamp_matches(3) assms by simp
  from le have "local_stamp d @ ''.json'' \<le> local_stamp now @ ''.json''"
    unfolding append_le_iff [OF len] by auto
  moreover have "local_stamp d \<le> local_stamp d @ ''.json''"
    by (rule le_append_self)
  ultimately show ?thesis
    using assms(8) by auto
qed

lemma getAllEntries_listing:
  "fst (getAllEntries h svc r w) =
     (case fs_readdir (files w) (userDataBackupFolder svc @ [resource_text r]) of
        Inl e \<Rightarrow> Inr []
      | Inr children \<Rightarrow>
          Inr (map (\<lambda>n. \<lparr>resource = r, name = n, created = getCreationTime h n\<rparr>)
                 (rev (sort (filter matches_backup_name children)))))"
  by (simp add: getAllEntries_def path_join_Cons path_join_Nil plain_resource_text split: sum.splits)

lemma listing_after_backup:
  assumes v: "valid_date now" and ok: "fst (backup svc now r w) = Inr ()"
  obtains names where
    "nodes (files w) (userDataBackupFolder svc @ [resource_text r]) = Some (Dir names) \<or> names = []"
    "fs_readdir (files (snd (backup svc now r w))) (userDataBackupFolder svc @ [resource_text r]) =
       (case fault (files w) Readdir (userDataBackupFolder svc @ [resource_text r]) of
          Some e \<Rightarrow> Inl e
        | None \<Rightarrow> Inr (add_name (backup_file_name now) names))"
proof (rule backup_success [OF v ok])
  let ?folder = "userDataBackupFolder svc @ [resource_text r]"
  let ?file = "userDataBackupFolder svc @ [resource_text r, backup_file_name now]"
  let ?w' = "snd (backup svc now r w)"
  let ?new = "backup_file_name now"
  fix fs1 content names
  assume one: "fs1 = files w \<or> fs_mkdir_recursive (files w) ?folder = Inr fs1"
    and d: "nodes fs1 ?folder = Some (Dir names)"
    and n2: "nodes (files ?w') =
        (nodes fs1)(?folder \<mapsto> Dir (add_name ?new names), ?file \<mapsto> File content)"
    and f2: "fault (files ?w') = fault fs1"
  have before: "nodes (files w) ?folder = Some (Dir names) \<or> names = []"
    using one
  proof
    assume "fs1 = files w"
    with d show ?thesis by simp
  next
    assume "fs_mkdir_recursive (files w) ?folder = Inr fs1"
    from fs_mkdir_recursive_target [OF this _ d] show ?thesis by simp
  qed
  have flt: "fault fs1 = fault (files w)"
    using one fs_mkdir_recursive_result(1) by auto
  have ne: "?folder \<noteq> ?file"
    by simp
  have rd: "fs_readdir (files ?w') ?folder =
       (case fault (files w) Readdir ?folder of
          Some e \<Rightarrow> Inl e
        | None \<Rightarrow> Inr (add_name ?new names))"
    using ne by (simp add: fs_readdir_def f2 flt n2 split: option.splits)
  from before rd show thesis
    by (rule that)
qed

text \<open>
  Claim C1, as stated, fails in two ways. In the year 10000 the name has nine digits
  before the T, the pattern of the listing rejects it, and the listing after a
  successful backup into an empty folder is empty. And a folder that can be written
  but not listed takes the backup and then gives the empty listing.
\<close>

theorem backup_then_list_counterexample:
  "valid_date far_clock \<and>
   fst (backup example_service far_clock Settings empty_folder_world) = Inr () \<and>
   backup_file_name far_clock = ''100000101T000000.json'' \<and>
   fst (getAllEntries host_utc example_service Settings
          (snd (backup example_service far_clock Settings empty_folder_world))) = Inr [] \<and>
   valid_date clock_reading \<and>
   fst (backup example_service clock_reading Settings \<lparr>files = unlistable_disk, fired = []\<rparr>) = Inr () \<and>
   fst (getAllEntries host_utc example_service Settings
          (snd (backup example_service clock_reading Settings
             \<lparr>files = unlistable_disk, fired = []\<rparr>))) = Inr []"
proof -
  let ?folder = "[''home'', ''User'', ''globalStorage'', ''ext'', ''userdata-backup'', ''settings'']"
  have v: "valid_date far_clock"
    by (simp add: valid_date_def far_clock_def)
  have nm: "backup_file_name far_clock = ''100000101T000000.json''"
    unfolding backup_file_name_stamp [OF v]
    by (simp add: local_stamp_def far_clock_def two_digits_def show_nat.simps digit_char_def)
  have f: "userDataBackupFolder example_service @ [resource_text Settings] = ?folder"
    "userDataPath example_service = [''home'', ''User'']"
    "userDataBackupFolder example_service =
       [''home'', ''User'', ''globalStorage'', ''ext'', ''userdata-backup'']"
    by code_simp+
  have ok: "fst (backup example_service far_clock Settings empty_folder_world) = Inr ()"
    unfolding backup_unfolded [OF v] nm f by code_simp
  have before: "nodes (files empty_folder_world) ?folder = Some (Dir [])"
    "fault (files empty_folder_world) Readdir ?folder = None"
    by code_simp+
  have no: "\<not> matches_backup_name ''100000101T000000.json''"
    by code_simp
  have a: "fst (getAllEntries host_utc example_service Settings
          (snd (backup example_service far_clock Settings empty_folder_world))) = Inr []"
  proof (rule listing_after_backup [OF v ok])
    fix names
    assume "nodes (files empty_folder_world)
        (userDataBackupFolder example_service @ [resource_text Settings]) = Some (Dir names) \<or> names = []"
      and rd: "fs_readdir (files (snd (backup example_service far_clock Settings empty_folder_world)))
        (userDataBackupFolder example_service @ [resource_text Settings]) =
        (case fault (files empty_folder_world) Readdir
                (userDataBackupFolder example_service @ [resource_text Settings]) of
           Some e \<Rightarrow> Inl e
         | None \<Rightarrow> Inr (add_name (backup_file_name far_clock) names))"
    then have "names = []"
      using before(1) by (auto simp: f(3))
    with rd have "fs_readdir (files (snd (backup example_service far_clock Settings empty_folder_world)))
        (userDataBackupFolder example_service @ [resource_text Settings]) =
        Inr [''100000101T000000.json'']"
      using before(2) by (simp add: f(3) nm add_name_def)
    then show ?thesis
      unfolding getAllEntries_listing using no by simp
  qed
  have v2: "valid_date clock_reading"
    by code_simp
  have ok2: "fst (backup example_service clock_reading Settings \<lparr>files = unlistable_disk, fired = []\<rparr>) =
      Inr ()"
    by code_simp
  have flt: "fault (files \<lparr>files = unlistable_disk, fired = []\<rparr>) Readdir ?folder = Some EACCES"
    by code_simp
  have b: "fst (getAllEntries host_utc example_service Settings
          (snd (backup example_service clock_reading Settings
             \<lparr>files = unlistable_disk, fired = []\<rparr>))) = Inr []"
  proof (rule listing_after_backup [OF v2 ok2])
    fix names
    assume rd: "fs_readdir
        (files (snd (backup example_service clock_reading Settings \<lparr>files = unlistable_disk, fired = []\<rparr>)))
        (userDataBackupFolder example_service @ [resource_text Settings]) =
        (case fault (files \<lparr>files = unlistable_disk, fired = []\<rparr>) Readdir
                (userDataBackupFolder example_service @ [resource_text Settings]) of
           Some e \<Rightarrow> Inl e
         | None \<Rightarrow> Inr (add_name (backup_file_name clock_reading) names))"
    then have "fs_readdir
        (files (snd (backup example_service clock_reading Settings \<lparr>files = unlistable_disk, fired = []\<rparr>)))
        (userDataBackupFolder example_service @ [resource_text Settings]) = Inl EACCES"
      using flt by (simp add: f(3))
    then show ?thesis
      unfolding getAllEntries_listing by simp
  qed
  from v ok nm a v2 ok2 b show ?thesis
    by simp
qed

text \<open>
  Claim C1, amended. Let the clock reading be valid with a year of four digits, let the
  backup succeed, let the listing of the folder not be refused, and let every name in
  the folder that the pattern accepts be the stamp, with or without \<^verbatim>\<open>.json\<close>, of a
  valid reading with a year of four digits that is not after the current one. Then the
  listing right after the backup is not empty and the name of its first entry is the
  name the backup wrote.
\<close>

theorem backup_then_list:
  assumes v: "valid_date now" and y: "1000 \<le> getFullYear now" "getFullYear now \<le> 9999"
    and ok: "fst (backup svc now r w) = Inr ()"
    and listable: "fault (files w) Readdir (userDataBackupFolder svc @ [resource_text r]) = None"
    and earlier: "\<And>names n.
      nodes (files w) (userDataBackupFolder svc @ [resource_text r]) = Some (Dir names) \<Longrightarrow>
      n \<in> set names \<Longrightarrow> matches_backup_name n \<Longrightarrow>
      \<exists>d. valid_date d \<and> 1000 \<le> getFullYear d \<and> getFullYear d \<le> 9999 \<and> not_after d now \<and>
          (n = local_stamp d \<or> n = local_stamp d @ ''.json'')"
  shows "\<exists>e es. fst (getAllEntries h svc r (snd (backup svc now r w))) = Inr (e # es) \<and>
           name e = backup_file_name now \<and> name e = local_stamp now @ ''.json''"
proof (rule listing_after_backup [OF v ok])
  let ?folder = "userDataBackupFolder svc @ [resource_text r]"
  let ?w' = "snd (backup svc now r w)"
  let ?new = "backup_file_name now"
  fix names
  assume before: "nodes (files w) ?folder = Some (Dir names) \<or> names = []"
    and rd0: "fs_readdir (files ?w') ?folder =
       (case fault (files w) Readdir ?folder of
          Some e \<Rightarrow> Inl e
        | None \<Rightarrow> Inr (add_name ?new names))"
  have nm: "?new = local_stamp now @ ''.json''"
    by (rule backup_file_name_stamp [OF v])
  have rd: "fs_readdir (files ?w') ?folder = Inr (add_name ?new names)"
    using rd0 listable by simp
  let ?xs = "filter matches_backup_name (add_name ?new names)"
  have acc: "matches_backup_name ?new"
    unfolding nm using stamp_matches(1) [OF v y] .
  have mem: "?new \<in> set ?xs"
    using acc by (simp add: add_name_def)
  have top: "x \<le> ?new" if "x \<in> set ?xs" for x
  proof (cases "x = ?new")
    case True
    then show ?thesis by simp
  next
    case False
    with that have x: "x \<in> set names" "matches_backup_name x"
      by (auto simp: add_name_def split: if_splits)
    with before have "nodes (files w) ?folder = Some (Dir names)"
      by auto
    from earlier [OF this x] obtain dd where
      "valid_date dd" "1000 \<le> getFullYear dd" "getFullYear dd \<le> 9999" "not_after dd now"
      "x = local_stamp dd \<or> x = local_stamp dd @ ''.json''"
      by blast
    from earlier_name_le [OF v y this] show ?thesis
      by (simp add: nm)
  qed
  from newest_first [OF mem top] obtain rest where
    first: "rev (sort ?xs) = ?new # rest"
    by blast
  have "fst (getAllEntries h svc r ?w') =
      Inr (\<lparr>resource = r, name = ?new, created = getCreationTime h ?new\<rparr> #
           map (\<lambda>n. \<lparr>resource = r, name = n, created = getCreationTime h n\<rparr>) rest)"
    unfolding getAllEntries_listing rd sum.case first by simp
  then show ?thesis
    using nm by auto
qed

theorem backup_then_list_witness:
  "valid_date clock_reading \<and> 1000 \<le> getFullYear clock_reading \<and> getFullYear clock_reading \<le> 9999 \<and>
   fst (backup example_service clock_reading Settings history_world) = Inr () \<and>
   fault (files history_world) Readdir (userDataBackupFolder example_service @ [resource_text Settings]) =
     None \<and>
   nodes (files history_world) (userDataBackupFolder example_service @ [resource_text Settings]) =
     Some (Dir [''20230614T090000'', ''notes.txt'', ''20230615T143022.json'']) \<and>
   (\<exists>e es. fst (getAllEntries host_utc example_service Settings
                  (snd (backup example_service clock_reading Settings history_world))) = Inr (e # es) \<and>
           name e = ''20230616T080509.json'')"
proof -
  define d1 :: js_date where "d1 =
     \<lparr>getFullYear = 2023, getMonth = 5, getDate = 14, getHours = 9, getMinutes = 0,
      getSeconds = 0, getMilliseconds = 0\<rparr>"
  define d2 :: js_date where "d2 =
     \<lparr>getFullYear = 2023, getMonth = 5, getDate = 15, getHours = 14, getMinutes = 30,
      getSeconds = 22, getMilliseconds = 0\<rparr>"
  have v: "valid_date clock_reading" "1000 \<le> getFullYear clock_reading"
    "getFullYear clock_reading \<le> 9999"
    by code_simp+
  have ok: "fst (backup example_service clock_reading Settings history_world) = Inr ()"
    by code_simp
  have fl: "fault (files history_world) Readdir
      (userDataBackupFolder example_service @ [resource_text Settings]) = None"
    by code_simp
  have nd: "nodes (files history_world) (userDataBackupFolder example_service @ [resource_text Settings]) =
     Some (Dir [''20230614T090000'', ''notes.txt'', ''20230615T143022.json''])"
    by code_simp
  have s1: "valid_date d1 \<and> 1000 \<le> getFullYear d1 \<and> getFullYear d1 \<le> 9999 \<and>
      not_after d1 clock_reading \<and> ''20230614T090000'' = local_stamp d1"
    unfolding d1_def by code_simp
  have s2: "valid_date d2 \<and> 1000 \<le> getFullYear d2 \<and> getFullYear d2 \<le> 9999 \<and>
      not_after d2 clock_reading \<and> ''20230615T143022.json'' = local_stamp d2 @ ''.json''"
    unfolding d2_def by code_simp
  have no: "\<not> matches_backup_name ''notes.txt''"
    by code_simp
  have nm: "backup_file_name clock_reading = ''20230616T080509.json''"
    by code_simp
  have earlier: "\<exists>d. valid_date d \<and> 1000 \<le> getFullYear d \<and> getFullYear d \<le> 9999 \<and>
      not_after d clock_reading \<and> (n = local_stamp d \<or> n = local_stamp d @ ''.json'')"
    if "nodes (files history_world) (userDataBackupFolder example_service @ [resource_text Settings]) =
        Some (Dir names)" "n \<in> set names" "matches_backup_name n" for names n
  proof -
    from that(1,2) nd have "n = ''20230614T090000'' \<or> n = ''notes.txt'' \<or> n = ''20230615T143022.json''"
      by auto
    with that(3) no consider "n = ''20230614T090000''" | "n = ''20230615T143022.json''"
      by blast
    then show ?thesis
    proof cases
      case 1
      with s1 show ?thesis by blast
    next
      case 2
      with s2 show ?thesis by blast
    qed
  qed
  have "\<exists>e es. fst (getAllEntries host_utc example_service Settings
                  (snd (backup example_service clock_reading Settings history_world))) = Inr (e # es) \<and>
           name e = backup_file_name clock_reading \<and> name e = local_stamp clock_reading @ ''.json''"
  proof (rule backup_then_list [OF v ok fl])
    fix names n
    assume "nodes (files history_world) (userDataBackupFolder example_service @ [resource_text Settings]) =
        Some (Dir names)" "n \<in> set names" "matches_backup_name n"
    then show "\<exists>d. valid_date d \<and> 1000 \<le> getFullYear d \<and> getFullYear d \<le> 9999 \<and>
      not_after d clock_reading \<and> (n = local_stamp d \<or> n = local_stamp d @ ''.json'')"
      by (rule earlier)
  qed
  with v ok fl nd nm show ?thesis
    by auto
qed

subsection \<open>What a backup does to the folder\<close>

lemma mkdirs_succeeds:
  assumes "m parent = Some (Dir names)" and "\<And>k b. m (parent @ take k cs) \<noteq> Some (File b)"
  shows "\<exists>m'. mkdirs m parent cs = Inr m'"
  using assms
proof (induction cs arbitrary: m parent names)
  case Nil
  then show ?case by simp
next
  case (Cons c cs)
  have nf: "m (parent @ [c]) \<noteq> Some (File b)" for b
    using Cons.prems(2) [of 1 b] by simp
  have rest: "m ((parent @ [c]) @ take k cs) \<noteq> Some (File b)" for k b
    using Cons.prems(2) [of "Suc k" b] by simp
  show ?case
  proof (cases "m (parent @ [c])")
    case None
    let ?m2 = "m(parent \<mapsto> Dir (add_name c names), parent @ [c] \<mapsto> Dir [])"
    have d: "?m2 (parent @ [c]) = Some (Dir [])"
      by simp
    have r2: "?m2 ((parent @ [c]) @ take k cs) \<noteq> Some (File b)" for k b
      using rest [of k b] by simp
    from Cons.IH [OF d r2] obtain m' where "mkdirs ?m2 (parent @ [c]) cs = Inr m'"
      by blast
    with None Cons.prems(1) show ?thesis
      by simp
  next
    case (Some nd)
    with nf obtain ns where nd: "nd = Dir ns"
      by (cases nd) auto
    from Some nd have d: "m (parent @ [c]) = Some (Dir ns)"
      by simp
    from Cons.IH [OF d rest] obtain m' where "mkdirs m (parent @ [c]) cs = Inr m'"
      by blast
    with d show ?thesis
      by simp
  qed
qed

lemma mkdirs_dirs:
  assumes "mkdirs m parent cs = Inr m'" "m parent = Some (Dir names)"
  shows "\<exists>ns. m' (parent @ take k cs) = Some (Dir ns)"
  using assms
proof (induction cs arbitrary: m parent names k)
  case Nil
  then show ?case by simp
next
  case (Cons c cs)
  from Cons.prems obtain m1 ns1 where
    rec: "mkdirs m1 (parent @ [c]) cs = Inr m'" and
    d1: "m1 (parent @ [c]) = Some (Dir ns1)" and
    p1: "\<exists>ns. m1 parent = Some (Dir ns)"
    by (auto split: option.splits node.splits)
  show ?case
  proof (cases k)
    case 0
    have "m' parent = m1 parent"
      by (rule mkdirs_elsewhere [OF rec]) simp
    with p1 0 show ?thesis
      by simp
  next
    case (Suc j)
    from Cons.IH [OF rec d1, of j] Suc show ?thesis
      by simp
  qed
qed

lemma take_on_the_way: "take k xs \<in> set (map (\<lambda>j. take j xs) [0..<Suc (length xs)])"
proof (cases "k \<le> length xs")
  case True
  then have "k \<in> set [0..<Suc (length xs)]"
    by auto
  then show ?thesis
    by (simp only: set_map image_eqI)
next
  case False
  then have "take k xs = take (length xs) xs"
    by simp
  moreover have "length xs \<in> set [0..<Suc (length xs)]"
    by simp
  ultimately show ?thesis
    by (simp only: set_map image_eqI)
qed

lemma backup_folder_made:
  assumes root: "nodes (files w) [] = Some (Dir ns0)"
    and way: "\<And>k b. nodes (files w) (take k folder) \<noteq> Some (File b)"
    and mk: "fault (files w) Mkdir folder = None"
  shows "\<exists>fs1 names.
      (if \<not> fs_exists (files w) folder then fs_mkdir_recursive (files w) folder else Inr (files w)) = Inr fs1 \<and>
      fault fs1 = fault (files w) \<and>
      nodes fs1 folder = Some (Dir names) \<and>
      (\<forall>p b. nodes fs1 p = Some (File b) \<longleftrightarrow> nodes (files w) p = Some (File b)) \<and>
      (\<forall>p. (\<forall>k. p \<noteq> take k folder) \<longrightarrow> nodes fs1 p = nodes (files w) p)"
proof (cases "fs_exists (files w) folder")
  case True
  then obtain nd where "nodes (files w) folder = Some nd"
    by (auto simp: fs_exists_def)
  with way [of "length folder"] obtain names where "nodes (files w) folder = Some (Dir names)"
    by (cases nd) auto
  with True show ?thesis
    by simp
next
  case False
  from mkdirs_succeeds [of "nodes (files w)" "[]" ns0 folder] root way
  obtain m' where m': "mkdirs (nodes (files w)) [] folder = Inr m'"
    by auto
  let ?fs1 = "(files w)\<lparr>nodes := m'\<rparr>"
  have made: "fs_mkdir_recursive (files w) folder = Inr ?fs1"
    by (simp add: fs_mkdir_recursive_def mk m')
  from mkdirs_dirs [OF m' root, of "length folder"] obtain names where
    d: "m' folder = Some (Dir names)"
    by auto
  from False made d fs_mkdir_recursive_result [OF made] show ?thesis
    by simp
qed

lemma fs_mkdir_recursive_made:
  assumes "fs_mkdir_recursive fs p = Inr fs1"
  shows "p \<noteq> [] \<Longrightarrow> nodes fs1 p = (case nodes fs p of None \<Rightarrow> Some (Dir []) | Some x \<Rightarrow> Some x)"
    and "nodes fs [] = Some (Dir ns) \<Longrightarrow> \<exists>ns'. nodes fs1 (take k p) = Some (Dir ns')"
proof -
  from assms obtain m where m: "mkdirs (nodes fs) [] p = Inr m" and fs1: "fs1 = fs\<lparr>nodes := m\<rparr>"
    by (auto simp: fs_mkdir_recursive_def split: option.splits sum.splits)
  show "nodes fs1 p = (case nodes fs p of None \<Rightarrow> Some (Dir []) | Some x \<Rightarrow> Some x)" if "p \<noteq> []"
    using mkdirs_target [OF m that] by (simp add: fs1)
  show "\<exists>ns'. nodes fs1 (take k p) = Some (Dir ns')" if "nodes fs [] = Some (Dir ns)"
    using mkdirs_dirs [OF m that, of k] by (simp add: fs1)
qed

lemma backup_steps:
  assumes v: "valid_date now" and ok: "fst (backup svc now r w) = Inr ()"
  obtains fs1 content names where
    "(if \<not> fs_exists (files w) (userDataBackupFolder svc @ [resource_text r])
      then fs_mkdir_recursive (files w) (userDataBackupFolder svc @ [resource_text r])
      else Inr (files w)) = Inr fs1"
    "fs_readFile fs1 (userDataPath svc @ [resource_text r @ ''.json'']) = Inr content"
    "nodes fs1 (userDataBackupFolder svc @ [resource_text r]) = Some (Dir names)"
    "nodes (files (snd (backup svc now r w))) =
       (nodes fs1)
         (userDataBackupFolder svc @ [resource_text r] \<mapsto> Dir (add_name (backup_file_name now) names),
          userDataBackupFolder svc @ [resource_text r, backup_file_name now] \<mapsto> File content)"
    "fired (snd (backup svc now r w)) = fired w @ [r]"
proof -
  let ?folder = "userDataBackupFolder svc @ [resource_text r]"
  let ?file = "userDataBackupFolder svc @ [resource_text r, backup_file_name now]"
  let ?live = "userDataPath svc @ [resource_text r @ ''.json'']"
  let ?made = "if \<not> fs_exists (files w) ?folder then fs_mkdir_recursive (files w) ?folder
               else Inr (files w)"
  from ok obtain fs1 where made: "?made = Inr fs1"
    unfolding backup_unfolded [OF v] by (cases ?made) auto
  from ok made obtain content where rd: "fs_readFile fs1 ?live = Inr content"
    unfolding backup_unfolded [OF v] by (cases "fs_readFile fs1 ?live") auto
  from ok made rd obtain fs2 where wr: "fs_writeFile fs1 ?file content = Inr fs2"
    unfolding backup_unfolded [OF v] by (cases "fs_writeFile fs1 ?file content") auto
  have res: "snd (backup svc now r w) = \<lparr>files = fs2, fired = fired w @ [r]\<rparr>"
    unfolding backup_unfolded [OF v] by (simp add: made rd wr)
  have bl: "butlast ?file = ?folder" "last ?file = backup_file_name now"
    by (simp_all add: butlast_append)
  from fs_writeFile_result [OF wr] obtain names where
    d: "nodes fs1 ?folder = Some (Dir names)" and
    n2: "nodes fs2 = (nodes fs1)(?folder \<mapsto> Dir (add_name (backup_file_name now) names),
          ?file \<mapsto> File content)"
    unfolding bl by blast
  show thesis
    by (rule that [OF made rd d]) (simp_all add: res n2)
qed

lemma backup_succeeds:
  assumes v: "valid_date now"
    and root: "nodes (files w) [] = Some (Dir ns0)"
    and way: "\<And>k b. nodes (files w) (take k (userDataBackupFolder svc @ [resource_text r])) \<noteq> Some (File b)"
    and mk: "fault (files w) Mkdir (userDataBackupFolder svc @ [resource_text r]) = None"
    and rdf: "fault (files w) ReadFile (userDataPath svc @ [resource_text r @ ''.json'']) = None"
    and wrf: "fault (files w) WriteFile
        (userDataBackupFolder svc @ [resource_text r, backup_file_name now]) = None"
    and live: "nodes (files w) (userDataPath svc @ [resource_text r @ ''.json'']) = Some (File content)"
    and free: "\<And>ns. nodes (files w) (userDataBackupFolder svc @ [resource_text r, backup_file_name now]) \<noteq>
        Some (Dir ns)"
  shows "fst (backup svc now r w) = Inr ()"
proof -
  let ?folder = "userDataBackupFolder svc @ [resource_text r]"
  let ?file = "userDataBackupFolder svc @ [resource_text r, backup_file_name now]"
  let ?live = "userDataPath svc @ [resource_text r @ ''.json'']"
  from backup_folder_made [OF root way mk] obtain fs1 names where
    made: "(if \<not> fs_exists (files w) ?folder then fs_mkdir_recursive (files w) ?folder
            else Inr (files w)) = Inr fs1" and
    flt: "fault fs1 = fault (files w)" and
    d: "nodes fs1 ?folder = Some (Dir names)" and
    fl: "\<And>p b. nodes fs1 p = Some (File b) \<longleftrightarrow> nodes (files w) p = Some (File b)" and
    el: "\<And>p. (\<forall>k. p \<noteq> take k ?folder) \<Longrightarrow> nodes fs1 p = nodes (files w) p"
    by blast
  have rd: "fs_readFile fs1 ?live = Inr content"
    using live fl [of ?live content] by (simp add: fs_readFile_def flt rdf)
  have "?file \<noteq> take k ?folder" for k
  proof
    assume "?file = take k ?folder"
    then have "length ?file = length (take k ?folder)"
      by (rule arg_cong)
    then show False
      by simp
  qed
  then have "nodes fs1 ?file = nodes (files w) ?file"
    using el [of ?file] by blast
  with free have nd: "nodes fs1 ?file \<noteq> Some (Dir ns)" for ns
    by simp
  have bl: "butlast ?file = ?folder"
    by (simp add: butlast_append)
  have "\<exists>fs2. fs_writeFile fs1 ?file content = Inr fs2"
    using nd by (simp add: fs_writeFile_def flt wrf bl d split: option.splits node.splits)
  then obtain fs2 where wr: "fs_writeFile fs1 ?file content = Inr fs2"
    by blast
  show ?thesis
    unfolding backup_unfolded [OF v] by (simp add: made rd wr)
qed

lemma no_file_on_the_way:
  assumes "list_all (\<lambda>p. case m p of Some (File b) \<Rightarrow> False | _ \<Rightarrow> True)
             (map (\<lambda>j. take j xs) [0..<Suc (length xs)])"
  shows "m (take k xs) \<noteq> Some (File b)"
proof -
  from assms take_on_the_way [of k xs]
  have "case m (take k xs) of Some (File b) \<Rightarrow> False | _ \<Rightarrow> True"
    unfolding list_all_iff by blast
  then show ?thesis
    by (auto split: option.splits node.splits)
qed

text \<open>
  Claim C5, as stated, fails in the name and in the word \<^emph>\<open>new\<close>. The year is written
  without padding and a hyphen is dropped: in the year 10000 the file a successful
  backup writes has nine digits before the T, a name the pattern of the listing
  rejects, and a reading in the year -2023 gives the name of the same reading in 2023.
  And a backup in the second of a snapshot that the folder already holds writes to that
  file: it succeeds, and here, where the live file has the bytes the snapshot has, the
  disk after the call holds what it held before, so no file is new.
\<close>

theorem backup_file_counterexample:
  "valid_date far_clock \<and>
   fst (backup example_service far_clock Settings history_world) = Inr () \<and>
   backup_file_name far_clock = ''100000101T000000.json'' \<and>
   nodes (files (snd (backup example_service far_clock Settings history_world)))
     [''home'', ''User'', ''globalStorage'', ''ext'', ''userdata-backup'', ''settings'',
      ''100000101T000000.json''] = Some (File ''{}'') \<and>
   \<not> matches_backup_name ''100000101T000000.json'' \<and>
   valid_date (clock_reading\<lparr>getFullYear := - 2023\<rparr>) \<and>
   backup_file_name (clock_reading\<lparr>getFullYear := - 2023\<rparr>) = backup_file_name clock_reading \<and>
   valid_date snapshot_clock \<and>
   nodes (files history_world)
     [''home'', ''User'', ''globalStorage'', ''ext'', ''userdata-backup'', ''settings'',
      ''20230615T143022.json''] = Some (File ''{}'') \<and>
   fst (backup example_service snapshot_clock Settings history_world) = Inr () \<and>
   backup_file_name snapshot_clock = ''20230615T143022.json'' \<and>
   nodes (files (snd (backup example_service snapshot_clock Settings history_world))) =
     nodes (files history_world)"
proof -
  let ?folder = "[''home'', ''User'', ''globalStorage'', ''ext'', ''userdata-backup'', ''settings'']"
  let ?old = "[''home'', ''User'', ''globalStorage'', ''ext'', ''userdata-backup'', ''settings'',
      ''20230615T143022.json'']"
  have v: "valid_date far_clock"
    by (simp add: valid_date_def far_clock_def)
  have nm: "backup_file_name far_clock = ''100000101T000000.json''"
    unfolding backup_file_name_stamp [OF v]
    by (simp add: local_stamp_def far_clock_def two_digits_def show_nat.simps digit_char_def)
  have f: "userDataBackupFolder example_service @ [resource_text Settings] = ?folder"
    "userDataPath example_service = [''home'', ''User'']"
    "userDataBackupFolder example_service =
       [''home'', ''User'', ''globalStorage'', ''ext'', ''userdata-backup'']"
    by code_simp+
  have ok: "fst (backup example_service far_clock Settings history_world) = Inr ()"
    unfolding backup_unfolded [OF v] nm f by code_simp
  have written: "nodes (files (snd (backup example_service far_clock Settings history_world)))
     [''home'', ''User'', ''globalStorage'', ''ext'', ''userdata-backup'', ''settings'',
      ''100000101T000000.json''] = Some (File ''{}'')"
    unfolding backup_unfolded [OF v] nm f by code_simp
  have no: "\<not> matches_backup_name ''100000101T000000.json''"
    by code_simp
  have v1: "valid_date (clock_reading\<lparr>getFullYear := - 2023\<rparr>)"
    by (simp add: valid_date_def clock_reading_def)
  have v0: "valid_date clock_reading"
    by code_simp
  have same: "backup_file_name (clock_reading\<lparr>getFullYear := - 2023\<rparr>) = backup_file_name clock_reading"
    unfolding backup_file_name_stamp [OF v1] backup_file_name_stamp [OF v0]
    by (simp add: local_stamp_def clock_reading_def)
  have v2: "valid_date snapshot_clock"
    by code_simp
  have nm2: "backup_file_name snapshot_clock = ''20230615T143022.json''"
    by code_simp
  have before: "nodes (files history_world) ?old = Some (File ''{}'')"
    by code_simp
  have ok2: "fst (backup example_service snapshot_clock Settings history_world) = Inr ()"
    by code_simp
  have there: "fs_exists (files history_world) ?folder"
    by code_simp
  have listed: "nodes (files history_world) ?folder =
      Some (Dir [''20230614T090000'', ''notes.txt'', ''20230615T143022.json''])"
    by code_simp
  have live: "fs_readFile (files history_world) [''home'', ''User'', ''settings.json''] = Inr ''{}''"
    by code_simp
  have unchanged: "nodes (files (snd (backup example_service snapshot_clock Settings history_world))) =
     nodes (files history_world)"
  proof (rule backup_steps [OF v2 ok2])
    fix fs1 content names
    assume made: "(if \<not> fs_exists (files history_world)
                        (userDataBackupFolder example_service @ [resource_text Settings])
        then fs_mkdir_recursive (files history_world)
               (userDataBackupFolder example_service @ [resource_text Settings])
        else Inr (files history_world)) = Inr fs1"
      and rd: "fs_readFile fs1 (userDataPath example_service @ [resource_text Settings @ ''.json'']) =
        Inr content"
      and d: "nodes fs1 (userDataBackupFolder example_service @ [resource_text Settings]) = Some (Dir names)"
      and n2: "nodes (files (snd (backup example_service snapshot_clock Settings history_world))) =
        (nodes fs1)
          (userDataBackupFolder example_service @ [resource_text Settings] \<mapsto>
             Dir (add_name (backup_file_name snapshot_clock) names),
           userDataBackupFolder example_service @ [resource_text Settings, backup_file_name snapshot_clock] \<mapsto>
             File content)"
    from made there have fs1: "fs1 = files history_world"
      by (simp add: f(3))
    from rd live have content: "content = ''{}''"
      by (simp add: fs1 f(2))
    from d listed have names: "names = [''20230614T090000'', ''notes.txt'', ''20230615T143022.json'']"
      by (simp add: fs1 f(3))
    have same_list: "add_name (backup_file_name snapshot_clock) names = names"
      by (simp add: names nm2 add_name_def)
    show ?thesis
      unfolding n2 same_list content fs1 using listed before
      by (simp add: f(3) nm2 names fun_upd_idem)
  qed
  from v ok nm written no v1 same v2 before ok2 nm2 unchanged show ?thesis
    by simp
qed

text \<open>
  Claim C5, amended. Let the clock reading be valid. A backup that succeeds leaves the
  resource's folder a directory whose listing is the listing before with the new name
  added at the end unless it was there, and the new name alone when there was no folder;
  the folder was no file. When \<^verbatim>\<open>fs.exists\<close> said no and the root is a directory,
  every directory on the way to the folder is a directory afterwards; when it said yes,
  nothing but the folder and the file is changed. The file of the new name holds the
  bytes the live file held when the backup was called; no other file is created,
  changed or removed, and nothing changes outside the directories on the way to the
  folder; and the resource is appended once to the events fired. The backup does
  succeed, whether the folder is there or not, when the root is a directory, no file
  lies on the way to the folder, the environment refuses none of the three calls, the
  live file is a file and the name to write is not that of a directory. A backup that
  fails fires nothing. The name is the digits of the year, then month, day, the letter
  T, hour, minute and second with two digits each, followed by \<^verbatim>\<open>.json\<close>; for a
  year of four digits this is fifteen characters that the pattern of the listing
  accepts.
\<close>

theorem backup_effect:
  assumes "valid_date now"
  shows
    "(fst (backup svc now r w) = Inr () \<longrightarrow>
        (\<forall>names.
           nodes (files w) (userDataBackupFolder svc @ [resource_text r]) = Some (Dir names) \<longrightarrow>
           nodes (files (snd (backup svc now r w))) (userDataBackupFolder svc @ [resource_text r]) =
             Some (Dir (add_name (backup_file_name now) names))) \<and>
        (nodes (files w) (userDataBackupFolder svc @ [resource_text r]) = None \<longrightarrow>
           nodes (files (snd (backup svc now r w))) (userDataBackupFolder svc @ [resource_text r]) =
             Some (Dir [backup_file_name now])) \<and>
        (\<forall>b. nodes (files w) (userDataBackupFolder svc @ [resource_text r]) \<noteq> Some (File b)) \<and>
        (\<not> fs_exists (files w) (userDataBackupFolder svc @ [resource_text r]) \<and>
         (\<exists>ns. nodes (files w) [] = Some (Dir ns)) \<longrightarrow>
           (\<forall>k. \<exists>ns. nodes (files (snd (backup svc now r w)))
                   (take k (userDataBackupFolder svc @ [resource_text r])) = Some (Dir ns))) \<and>
        (fs_exists (files w) (userDataBackupFolder svc @ [resource_text r]) \<longrightarrow>
           (\<forall>p. p \<noteq> userDataBackupFolder svc @ [resource_text r] \<and>
                p \<noteq> userDataBackupFolder svc @ [resource_text r, backup_file_name now] \<longrightarrow>
              nodes (files (snd (backup svc now r w))) p = nodes (files w) p)) \<and>
        (\<exists>content.
           fs_readFile (files w) (userDataPath svc @ [resource_text r @ ''.json'']) = Inr content \<and>
           nodes (files (snd (backup svc now r w)))
             (userDataBackupFolder svc @ [resource_text r, backup_file_name now]) =
             Some (File content)) \<and>
        (\<forall>p b. p \<noteq> userDataBackupFolder svc @ [resource_text r, backup_file_name now] \<longrightarrow>
           (nodes (files (snd (backup svc now r w))) p = Some (File b) \<longleftrightarrow>
            nodes (files w) p = Some (File b))) \<and>
        (\<forall>p. p \<noteq> userDataBackupFolder svc @ [resource_text r, backup_file_name now] \<and>
             (\<forall>k. p \<noteq> take k (userDataBackupFolder svc @ [resource_text r])) \<longrightarrow>
           nodes (files (snd (backup svc now r w))) p = nodes (files w) p) \<and>
        fired (snd (backup svc now r w)) = fired w @ [r]) \<and>
     ((\<exists>ns. nodes (files w) [] = Some (Dir ns)) \<and>
      (\<forall>k b. nodes (files w) (take k (userDataBackupFolder svc @ [resource_text r])) \<noteq> Some (File b)) \<and>
      fault (files w) Mkdir (userDataBackupFolder svc @ [resource_text r]) = None \<and>
      fault (files w) ReadFile (userDataPath svc @ [resource_text r @ ''.json'']) = None \<and>
      fault (files w) WriteFile
        (userDataBackupFolder svc @ [resource_text r, backup_file_name now]) = None \<and>
      (\<exists>content. nodes (files w) (userDataPath svc @ [resource_text r @ ''.json'']) =
         Some (File content)) \<and>
      (\<forall>ns. nodes (files w) (userDataBackupFolder svc @ [resource_text r, backup_file_name now]) \<noteq>
         Some (Dir ns)) \<longrightarrow>
        fst (backup svc now r w) = Inr ()) \<and>
     (\<forall>e. fst (backup svc now r w) = Inl e \<longrightarrow> fired (snd (backup svc now r w)) = fired w) \<and>
     backup_file_name now = local_stamp now @ ''.json'' \<and>
     (1000 \<le> getFullYear now \<and> getFullYear now \<le> 9999 \<longrightarrow>
        length (local_stamp now) = 15 \<and> matches_backup_name (backup_file_name now))"
proof -
  let ?folder = "userDataBackupFolder svc @ [resource_text r]"
  let ?file = "userDataBackupFolder svc @ [resource_text r, backup_file_name now]"
  let ?live = "userDataPath svc @ [resource_text r @ ''.json'']"
  let ?w' = "snd (backup svc now r w)"
  let ?new = "backup_file_name now"
  have success:
    "(\<forall>names. nodes (files w) ?folder = Some (Dir names) \<longrightarrow>
        nodes (files ?w') ?folder = Some (Dir (add_name ?new names))) \<and>
     (nodes (files w) ?folder = None \<longrightarrow> nodes (files ?w') ?folder = Some (Dir [?new])) \<and>
     (\<forall>b. nodes (files w) ?folder \<noteq> Some (File b)) \<and>
     (\<not> fs_exists (files w) ?folder \<and> (\<exists>ns. nodes (files w) [] = Some (Dir ns)) \<longrightarrow>
        (\<forall>k. \<exists>ns. nodes (files ?w') (take k ?folder) = Some (Dir ns))) \<and>
     (fs_exists (files w) ?folder \<longrightarrow>
        (\<forall>p. p \<noteq> ?folder \<and> p \<noteq> ?file \<longrightarrow> nodes (files ?w') p = nodes (files w) p)) \<and>
     (\<exists>content. fs_readFile (files w) ?live = Inr content \<and>
        nodes (files ?w') ?file = Some (File content)) \<and>
     (\<forall>p b. p \<noteq> ?file \<longrightarrow>
        (nodes (files ?w') p = Some (File b) \<longleftrightarrow> nodes (files w) p = Some (File b))) \<and>
     (\<forall>p. p \<noteq> ?file \<and> (\<forall>k. p \<noteq> take k ?folder) \<longrightarrow> nodes (files ?w') p = nodes (files w) p) \<and>
     fired ?w' = fired w @ [r]"
    if ok: "fst (backup svc now r w) = Inr ()"
  proof (rule backup_steps [OF assms ok])
    fix fs1 content names
    assume made: "(if \<not> fs_exists (files w) ?folder then fs_mkdir_recursive (files w) ?folder
                   else Inr (files w)) = Inr fs1"
      and rd: "fs_readFile fs1 ?live = Inr content"
      and d: "nodes fs1 ?folder = Some (Dir names)"
      and n2: "nodes (files ?w') =
        (nodes fs1)(?folder \<mapsto> Dir (add_name ?new names), ?file \<mapsto> File content)"
      and ev: "fired ?w' = fired w @ [r]"
    have ne: "?folder \<noteq> ?file"
      by simp
    have one: "fs1 = files w \<or> fs_mkdir_recursive (files w) ?folder = Inr fs1"
      using made by (auto split: if_splits)
    have flt: "fault fs1 = fault (files w)"
      using one fs_mkdir_recursive_result(1) by auto
    have fl: "nodes fs1 q = Some (File b) \<longleftrightarrow> nodes (files w) q = Some (File b)" for q b
      using one fs_mkdir_recursive_result(2) by auto
    have el: "nodes fs1 q = nodes (files w) q" if "\<And>k. q \<noteq> take k ?folder" for q
      using one fs_mkdir_recursive_result(3) [of "files w" ?folder fs1 q] that by auto
    have tgt: "nodes fs1 ?folder =
        (case nodes (files w) ?folder of None \<Rightarrow> Some (Dir []) | Some x \<Rightarrow> Some x)"
    proof (cases "fs_exists (files w) ?folder")
      case True
      with made have "fs1 = files w"
        by simp
      with True show ?thesis
        by (auto simp: fs_exists_def)
    next
      case False
      with made have "fs_mkdir_recursive (files w) ?folder = Inr fs1"
        by simp
      from fs_mkdir_recursive_made(1) [OF this] show ?thesis
        by simp
    qed
    have c1: "nodes (files ?w') ?folder = Some (Dir (add_name ?new ns))"
      if "nodes (files w) ?folder = Some (Dir ns)" for ns
      using that tgt d ne by (simp add: n2)
    have c2: "nodes (files ?w') ?folder = Some (Dir [?new])" if "nodes (files w) ?folder = None"
      using that tgt d ne by (simp add: n2 add_name_def)
    have c3: "nodes (files w) ?folder \<noteq> Some (File b)" for b
      using fl [of ?folder b] d by simp
    have c4: "\<exists>ns. nodes (files ?w') (take k ?folder) = Some (Dir ns)"
      if "\<not> fs_exists (files w) ?folder \<and> (\<exists>ns. nodes (files w) [] = Some (Dir ns))" for k
    proof -
      from that made have mk: "fs_mkdir_recursive (files w) ?folder = Inr fs1"
        by simp
      from that obtain ns0 where "nodes (files w) [] = Some (Dir ns0)"
        by blast
      from fs_mkdir_recursive_made(2) [OF mk this, of k] obtain ns where
        "nodes fs1 (take k ?folder) = Some (Dir ns)"
        by blast
      moreover have "length (take k ?folder) < length ?file"
        by simp
      then have "take k ?folder \<noteq> ?file"
        by (metis less_irrefl)
      ultimately show ?thesis
        by (simp add: n2)
    qed
    have c5: "nodes (files ?w') p = nodes (files w) p"
      if "fs_exists (files w) ?folder" "p \<noteq> ?folder \<and> p \<noteq> ?file" for p
    proof -
      from that(1) made have "fs1 = files w"
        by simp
      with that(2) show ?thesis
        by (simp add: n2)
    qed
    have c6: "\<exists>content. fs_readFile (files w) ?live = Inr content \<and>
        nodes (files ?w') ?file = Some (File content)"
      using fs_readFile_same [OF flt fl rd] by (simp add: n2)
    have c7: "nodes (files ?w') p = Some (File b) \<longleftrightarrow> nodes (files w) p = Some (File b)"
      if "p \<noteq> ?file" for p b
    proof (cases "p = ?folder")
      case True
      with that c3 show ?thesis
        by (simp add: n2)
    next
      case False
      with that show ?thesis
        by (simp add: n2 fl)
    qed
    have c8: "nodes (files ?w') p = nodes (files w) p"
      if "p \<noteq> ?file \<and> (\<forall>k. p \<noteq> take k ?folder)" for p
    proof -
      from that have "p \<noteq> take (length ?folder) ?folder"
        by blast
      then have "p \<noteq> ?folder"
        by simp
      with that show ?thesis
        by (simp add: n2 el)
    qed
    from c1 c2 c3 c4 c5 c6 c7 c8 ev show ?thesis
      by blast
  qed
  have progress: "fst (backup svc now r w) = Inr ()"
    if "(\<exists>ns. nodes (files w) [] = Some (Dir ns)) \<and>
      (\<forall>k b. nodes (files w) (take k ?folder) \<noteq> Some (File b)) \<and>
      fault (files w) Mkdir ?folder = None \<and>
      fault (files w) ReadFile ?live = None \<and>
      fault (files w) WriteFile ?file = None \<and>
      (\<exists>content. nodes (files w) ?live = Some (File content)) \<and>
      (\<forall>ns. nodes (files w) ?file \<noteq> Some (Dir ns))"
  proof -
    from that obtain ns0 content where
      "nodes (files w) [] = Some (Dir ns0)" "nodes (files w) ?live = Some (File content)"
      by blast
    with that show ?thesis
      by (intro backup_succeeds [OF assms, of w ns0 svc r content]) blast+
  qed
  have failure: "fired ?w' = fired w" if "fst (backup svc now r w) = Inl e" for e
    using backup_failure_fires_nothing [OF assms that] .
  have nm: "?new = local_stamp now @ ''.json''"
    by (rule backup_file_name_stamp [OF assms])
  have four: "length (local_stamp now) = 15 \<and> matches_backup_name ?new"
    if "1000 \<le> getFullYear now \<and> getFullYear now \<le> 9999"
    using that stamp_matches [OF assms] by (simp add: nm)
  from success progress failure nm four show ?thesis
    by blast
qed

theorem backup_effect_witness:
  "valid_date clock_reading \<and>
   nodes (files two_editors_world)
     [''home'', ''.config'', ''Code'', ''User'', ''globalStorage'', ''ext'', ''userdata-backup''] = None \<and>
   \<not> fs_exists (files two_editors_world)
     [''home'', ''.config'', ''Code'', ''User'', ''globalStorage'', ''ext'', ''userdata-backup'', ''settings''] \<and>
   fst (backup (new_UserDataBackupService stable_storage) clock_reading Settings two_editors_world) =
     Inr () \<and>
   nodes (files (snd (backup (new_UserDataBackupService stable_storage) clock_reading Settings
                        two_editors_world)))
     [''home'', ''.config'', ''Code'', ''User'', ''globalStorage'', ''ext'', ''userdata-backup'', ''settings''] =
     Some (Dir [''20230616T080509.json'']) \<and>
   (\<exists>ns. nodes (files (snd (backup (new_UserDataBackupService stable_storage) clock_reading Settings
                        two_editors_world)))
     [''home'', ''.config'', ''Code'', ''User'', ''globalStorage'', ''ext'', ''userdata-backup''] =
     Some (Dir ns)) \<and>
   nodes (files (snd (backup (new_UserDataBackupService stable_storage) clock_reading Settings
                        two_editors_world)))
     [''home'', ''.config'', ''Code'', ''User'', ''globalStorage'', ''ext'', ''userdata-backup'', ''settings'',
      ''20230616T080509.json''] = Some (File ''stable'') \<and>
   fired (snd (backup (new_UserDataBackupService stable_storage) clock_reading Settings
                 two_editors_world)) = [Settings] \<and>
   length (local_stamp clock_reading) = 15 \<and>
   matches_backup_name (backup_file_name clock_reading)"
proof -
  let ?svc = "new_UserDataBackupService stable_storage"
  let ?base = "[''home'', ''.config'', ''Code'', ''User'', ''globalStorage'', ''ext'', ''userdata-backup'']"
  let ?folder = "[''home'', ''.config'', ''Code'', ''User'', ''globalStorage'', ''ext'', ''userdata-backup'',
      ''settings'']"
  let ?file = "[''home'', ''.config'', ''Code'', ''User'', ''globalStorage'', ''ext'', ''userdata-backup'',
      ''settings'', ''20230616T080509.json'']"
  let ?live = "[''home'', ''.config'', ''Code'', ''User'', ''settings.json'']"
  let ?w' = "snd (backup ?svc clock_reading Settings two_editors_world)"
  have v: "valid_date clock_reading"
    by code_simp
  have y: "1000 \<le> getFullYear clock_reading \<and> getFullYear clock_reading \<le> 9999"
    by code_simp
  have c: "userDataBackupFolder ?svc @ [resource_text Settings] = ?folder"
    "userDataBackupFolder ?svc @ [resource_text Settings, backup_file_name clock_reading] = ?file"
    "userDataPath ?svc @ [resource_text Settings @ ''.json''] = ?live"
    "fired two_editors_world = []"
    by code_simp+
  have t: "take 7 ?folder = ?base"
    by simp
  have missing: "nodes (files two_editors_world) ?base = None"
    "nodes (files two_editors_world) ?folder = None"
    by code_simp+
  have absent: "\<not> fs_exists (files two_editors_world) ?folder"
    by code_simp
  have "nodes (files two_editors_world) [] = Some (Dir [''home''])"
    by code_simp
  then have root: "\<exists>ns. nodes (files two_editors_world) [] = Some (Dir ns)"
    by simp
  have "list_all (\<lambda>p. case nodes (files two_editors_world) p of Some (File b) \<Rightarrow> False | _ \<Rightarrow> True)
          (map (\<lambda>j. take j ?folder) [0..<Suc (length ?folder)])"
    by code_simp
  then have way: "\<forall>k b. nodes (files two_editors_world) (take k ?folder) \<noteq> Some (File b)"
    using no_file_on_the_way by blast
  have faults: "fault (files two_editors_world) Mkdir ?folder = None"
    "fault (files two_editors_world) ReadFile ?live = None"
    "fault (files two_editors_world) WriteFile ?file = None"
    by code_simp+
  have live: "nodes (files two_editors_world) ?live = Some (File ''stable'')"
    "fs_readFile (files two_editors_world) ?live = Inr ''stable''"
    by code_simp+
  have "nodes (files two_editors_world) ?file = None"
    by code_simp
  then have free: "\<forall>ns. nodes (files two_editors_world) ?file \<noteq> Some (Dir ns)"
    by simp
  note e = backup_effect [OF v, of ?svc Settings two_editors_world, unfolded c]
  have hyps: "(\<exists>ns. nodes (files two_editors_world) [] = Some (Dir ns)) \<and>
      (\<forall>k b. nodes (files two_editors_world) (take k ?folder) \<noteq> Some (File b)) \<and>
      fault (files two_editors_world) Mkdir ?folder = None \<and>
      fault (files two_editors_world) ReadFile ?live = None \<and>
      fault (files two_editors_world) WriteFile ?file = None \<and>
      (\<exists>content. nodes (files two_editors_world) ?live = Some (File content)) \<and>
      (\<forall>ns. nodes (files two_editors_world) ?file \<noteq> Some (Dir ns))"
    using root way faults live(1) free by simp
  have ok: "fst (backup ?svc clock_reading Settings two_editors_world) = Inr ()"
    by (rule e [THEN conjunct2, THEN conjunct1, THEN mp, OF hyps])
  note s = e [THEN conjunct1, THEN mp, OF ok]
  have made: "nodes (files ?w') ?folder = Some (Dir [backup_file_name clock_reading])"
    by (rule s [THEN conjunct2, THEN conjunct1, THEN mp, OF missing(2)])
  have "\<exists>ns. nodes (files ?w') (take 7 ?folder) = Some (Dir ns)"
    by (rule s [THEN conjunct2, THEN conjunct2, THEN conjunct2, THEN conjunct1, THEN mp,
          OF conjI [OF absent root], THEN spec])
  then have up: "\<exists>ns. nodes (files ?w') ?base = Some (Dir ns)"
    unfolding t .
  note s5 = s [THEN conjunct2, THEN conjunct2, THEN conjunct2, THEN conjunct2, THEN conjunct2]
  from s5 [THEN conjunct1] obtain content where
    "fs_readFile (files two_editors_world) ?live = Inr content"
    "nodes (files ?w') ?file = Some (File content)"
    by blast
  with live(2) have copied: "nodes (files ?w') ?file = Some (File ''stable'')"
    by simp
  have ev: "fired ?w' = [Settings]"
    using s5 [THEN conjunct2, THEN conjunct2, THEN conjunct2] by simp
  have form: "length (local_stamp clock_reading) = 15 \<and>
      matches_backup_name (backup_file_name clock_reading)"
    by (rule e [THEN conjunct2, THEN conjunct2, THEN conjunct2, THEN conjunct2, THEN mp, OF y])
  have nm: "backup_file_name clock_reading = ''20230616T080509.json''"
    by code_simp
  from v missing(1) absent ok made up copied ev form show ?thesis
    unfolding nm by simp
qed

subsection \<open>The calendar\<close>



















subsection \<open>The order of a listing\<close>









end
